theory Spec2Isabelle
  imports Complex_Main "HOL-Library.Word"
begin

section \<open>Types and constants of the system headers\<close>

text \<open>
  The profiling code of \<^verbatim>\<open>lib/libc/gmon/gmon.c\<close> and the extractor of
  \<^verbatim>\<open>usr.bin/gprof/extract.c\<close> share the declarations of \<^verbatim>\<open>sys/gmon.h\<close> and
  \<^verbatim>\<open>sys/ktrace.h\<close>. Those headers are not among the sources, so the constants they
  define are a parameter of every function below: a record \<open>sysdefs\<close>. The value
  \<open>openbsd\<close> instantiates it with the numbers of the OpenBSD headers on a 64-bit
  platform; it is used for concrete evaluations only.
\<close>

type_synonym u_long = "64 word"
type_synonym u_int = "32 word"
type_synonym u_short = "16 word"

record sysdefs =
  HISTFRACTION :: nat
  HASHFRACTION :: nat
  ARCDENSITY :: nat
  MINARCS :: nat
  MAXARCS :: nat
  GMONVERSION :: nat
  KTR_USER_MAXLEN :: nat
  KTR_USER :: nat
  sizeof_gmonhdr :: nat
  sizeof_tostruct :: nat

definition openbsd :: sysdefs where
  "openbsd = \<lparr> HISTFRACTION = 2, HASHFRACTION = 2, ARCDENSITY = 2, MINARCS = 50,
     MAXARCS = 65534, GMONVERSION = 199410, KTR_USER_MAXLEN = 2048,
     KTR_USER = 8, sizeof_gmonhdr = 40, sizeof_tostruct = 24 \<rparr>"

text \<open>
  Modelled from the spec: the field widths of \<^verbatim>\<open>struct gmonhdr\<close> and
  \<^verbatim>\<open>struct rawarc\<close> (declared in \<^verbatim>\<open>sys/gmon.h\<close>), which the on-disk layout of the
  spec gives as \<open>{low_pc: u64, high_pc: u64, declared_size: u32, version: u32,
  sample_rate: u32}\<close> and \<open>{caller_pc: u64, callee_pc: u64, hit_count: u64}\<close>. The
  reserved words of the header are zeroed by \<^verbatim>\<open>bzero\<close>/\<^verbatim>\<open>memset\<close> on both sides and
  carry no information, so they are left out.
\<close>

record gmonhdr =
  lpc :: u_long
  hpc :: u_long
  ncnt :: u_int
  version :: u_int
  profrate :: u_int

record rawarc =
  raw_frompc :: u_long
  raw_selfpc :: u_long
  raw_count :: u_long

section \<open>The C library: formatted output and input\<close>

text \<open>
  \<^verbatim>\<open>snprintf\<close> with \<^verbatim>\<open>%x\<close>/\<^verbatim>\<open>%lx\<close> prints an unsigned value in lower-case
  hexadecimal without leading zeros; \<^verbatim>\<open>%04hx\<close> pads an unsigned short to four digits.
\<close>

definition hexchar :: "nat \<Rightarrow> char" where
  "hexchar d = ''0123456789abcdef'' ! d"

function hex :: "nat \<Rightarrow> string" where
  "hex n = (if n < 16 then [hexchar n] else hex (n div 16) @ [hexchar (n mod 16)])"
  by pat_completeness auto
termination
  by (relation "measure id") auto

declare hex.simps [simp del]

definition hex04 :: "u_short \<Rightarrow> string" where
  "hex04 w = (let s = hex (unat w) in replicate (4 - length s) (CHR ''0'') @ s)"

text \<open>
  \<^verbatim>\<open>sscanf\<close> with a literal prefix followed by \<^verbatim>\<open>%x\<close>/\<^verbatim>\<open>%lx\<close> conversions, as
  ISO C defines them. Each conversion skips white space, takes an optional sign and an optional \<^verbatim>\<open>0x\<close>
  prefix, and then needs at least one hexadecimal digit (either case); it stops at the
  first character that is no digit. The digits are converted as \<^verbatim>\<open>strtoumax\<close> does: a
  number that does not fit 64 bits becomes the largest 64-bit value, whatever the
  sign, and a smaller one after a minus sign is negated; the store into the field then
  keeps the low 64 or 32 bits (\<open>of_int\<close> in \<open>gmon_append\<close>). The result is the list of the values converted
  before the first failure: its length is the count \<^verbatim>\<open>sscanf\<close> returns whenever that
  count is positive, and a shorter list stands for every smaller return value (0 or
  \<^verbatim>\<open>EOF\<close>). The blank of the format matches any amount of white space, which the
  conversion that follows skips anyway.
\<close>

definition isspace :: "char \<Rightarrow> bool" where
  "isspace c = (c = CHR '' '' \<or> (9 \<le> (of_char c :: nat) \<and> (of_char c :: nat) \<le> 13))"

definition xdigit_val :: "char \<Rightarrow> nat option" where
  "xdigit_val c = (let n = of_char c :: nat in
     if 48 \<le> n \<and> n \<le> 57 then Some (n - 48)
     else if 97 \<le> n \<and> n \<le> 102 then Some (n - 87)
     else if 65 \<le> n \<and> n \<le> 70 then Some (n - 55)
     else None)"

fun scan_digits :: "nat \<Rightarrow> string \<Rightarrow> nat \<times> string" where
  "scan_digits acc [] = (acc, [])"
| "scan_digits acc (c # cs) =
     (case xdigit_val c of
        None \<Rightarrow> (acc, c # cs)
      | Some v \<Rightarrow> scan_digits (acc * 16 + v) cs)"

definition scan_sign :: "string \<Rightarrow> bool \<times> string" where
  "scan_sign s = (case s of
       [] \<Rightarrow> (False, [])
     | c # cs \<Rightarrow> if c = CHR ''-'' then (True, cs)
                else if c = CHR ''+'' then (False, cs) else (False, s))"

definition scan_0x :: "string \<Rightarrow> string" where
  "scan_0x s = (case s of
       z # x # h # r \<Rightarrow>
         if z = CHR ''0'' \<and> (x = CHR ''x'' \<or> x = CHR ''X'') \<and> xdigit_val h \<noteq> None
         then h # r else s
     | _ \<Rightarrow> s)"

definition scan_hex :: "string \<Rightarrow> (int \<times> string) option" where
  "scan_hex s =
     (let (neg, s2) = scan_sign (dropWhile isspace s);
          s3 = scan_0x s2
      in case s3 of
           [] \<Rightarrow> None
         | c # cs \<Rightarrow>
             (case xdigit_val c of
                None \<Rightarrow> None
              | Some _ \<Rightarrow>
                  (let (v, r) = scan_digits 0 s3
                   in Some (if 2 ^ 64 \<le> v then 2 ^ 64 - 1
                            else if neg then - int v else int v, r))))"

fun scan_hexes :: "nat \<Rightarrow> string \<Rightarrow> int list" where
  "scan_hexes 0 s = []"
| "scan_hexes (Suc n) s =
     (case scan_hex s of
        None \<Rightarrow> []
      | Some (v, r) \<Rightarrow> v # scan_hexes n r)"

definition sscanf_hex :: "string \<Rightarrow> nat \<Rightarrow> string \<Rightarrow> int list" where
  "sscanf_hex lit n s =
     (if take (length lit) s = lit then scan_hexes n (drop (length lit) s) else [])"

text \<open>
  \<^verbatim>\<open>strsep(&trace, " ")\<close>: the token up to the first blank, and what follows the
  blank (\<open>None\<close> for the C null pointer when there is no blank).
\<close>

fun strsep :: "string \<Rightarrow> string \<times> string option" where
  "strsep [] = ([], None)"
| "strsep (c # cs) =
     (if c = CHR '' '' then ([], Some cs)
      else (case strsep cs of (t, r) \<Rightarrow> (c # t, r)))"

section \<open>The deserializer of \<^verbatim>\<open>extract.c\<close>\<close>

datatype gmon_state = HEADER | KCOUNT | RAWARC | FOOTER | ERROR

record gmon_de =
  sample_count :: u_long
  sample_total :: u_long
  state :: gmon_state

text \<open>
  The temporary file receives whole objects through \<^verbatim>\<open>fwrite\<close>: a header, a sample,
  an arc. Its contents are kept as the sequence of the objects written; \<open>wr_left\<close> is
  the number of writes that succeed before the first one fails (a failed write is
  followed by no other, since the deserializer stops in \<open>ERROR\<close>).
\<close>

datatype item = Hdr gmonhdr | Sample u_short | Arc rawarc

record outfile =
  contents :: "item list"
  wr_left :: nat

definition fwrite :: "item \<Rightarrow> outfile \<Rightarrow> outfile option" where
  "fwrite x fp =
     (if wr_left fp = 0 then None
      else Some (fp\<lparr> contents := contents fp @ [x], wr_left := wr_left fp - 1 \<rparr>))"

definition de_error :: "outfile \<Rightarrow> gmon_de \<Rightarrow> outfile \<times> gmon_de" where
  "de_error fp de = (fp, de\<lparr> state := ERROR \<rparr>)"

text \<open>
  The inner loop of the \<open>KCOUNT\<close> case: \<^verbatim>\<open>sample = sample * 16 + (*p - '0')\<close> for
  every character, after the test \<^verbatim>\<open>*p < '0' || 'f' < *p\<close>. A byte above 127 fails the
  test whether \<^verbatim>\<open>char\<close> is signed or not.
\<close>

fun sample_loop :: "u_short \<Rightarrow> string \<Rightarrow> u_short option" where
  "sample_loop sample [] = Some sample"
| "sample_loop sample (c # cs) =
     (if (of_char c :: nat) < 48 \<or> 102 < (of_char c :: nat) then None
      else sample_loop (sample * 16 + of_nat (of_char c - 48)) cs)"

text \<open>The \<^verbatim>\<open>while ((p = strsep(&trace, " ")) != NULL)\<close> loop of the \<open>KCOUNT\<close> case.\<close>

function kcount_loop :: "outfile \<Rightarrow> gmon_de \<Rightarrow> string option \<Rightarrow> outfile \<times> gmon_de" where
  "kcount_loop fp de None =
     (fp, if sample_count de = sample_total de then de\<lparr> state := RAWARC \<rparr> else de)"
| "kcount_loop fp de (Some trace) =
     (case strsep trace of (p, rest) \<Rightarrow>
        if length p \<noteq> 4 then de_error fp de
        else if sample_count de = sample_total de then de_error fp de
        else (case sample_loop 0 p of
                None \<Rightarrow> de_error fp de
              | Some sample \<Rightarrow>
                  (case fwrite (Sample sample) fp of
                     None \<Rightarrow> de_error fp de
                   | Some fp' \<Rightarrow>
                       kcount_loop fp' (de\<lparr> sample_count := sample_count de + 1 \<rparr>) rest)))"
  by pat_completeness auto
termination
proof -
  have shorter: "length r < length s" if "strsep s = (t, Some r)" for s t r
    using that by (induction s arbitrary: t r) (auto split: if_splits prod.splits)
  show ?thesis
    by (relation "measure (\<lambda>(fp, de, t). case t of None \<Rightarrow> 0 | Some s \<Rightarrow> Suc (length s))")
       (auto split: option.splits dest: shorter [OF sym])
qed

text \<open>
  \<^verbatim>\<open>gmon_append\<close>. The result is \<open>None\<close> where the C function calls \<^verbatim>\<open>abort()\<close>
  (states \<open>FOOTER\<close> and \<open>ERROR\<close>); otherwise the file and the cursor after the call.
  The messages of \<^verbatim>\<open>de_warnx\<close> are not modelled.
\<close>

definition gmon_append ::
  "sysdefs \<Rightarrow> outfile \<Rightarrow> gmon_de \<Rightarrow> string \<Rightarrow> (outfile \<times> gmon_de) option" where
  "gmon_append d fp de trace =
     (case state de of
        HEADER \<Rightarrow>
          (case sscanf_hex ''gmonhdr'' 5 trace of
             [a, b, c, e, f] \<Rightarrow>
               (let header = \<lparr> lpc = of_int a, hpc = of_int b, ncnt = of_int c,
                                version = of_int e, profrate = of_int f \<rparr>
                in if unat (ncnt header) < sizeof_gmonhdr d then Some (de_error fp de)
                   else (case fwrite (Hdr header) fp of
                           None \<Rightarrow> Some (de_error fp de)
                         | Some fp' \<Rightarrow>
                             Some (fp', de\<lparr> sample_count := 0,
                               sample_total :=
                                 (ucast (ncnt header) - of_nat (sizeof_gmonhdr d)) div 2,
                               state := KCOUNT \<rparr>)))
           | _ \<Rightarrow> Some (de_error fp de))
      | KCOUNT \<Rightarrow>
          (case strsep trace of (p, rest) \<Rightarrow>
             if p \<noteq> ''kcount'' then Some (de_error fp de)
             else Some (kcount_loop fp de rest))
      | RAWARC \<Rightarrow>
          if trace = ''footer'' then Some (fp, de\<lparr> state := FOOTER \<rparr>)
          else (case sscanf_hex ''rawarc'' 3 trace of
                  [a, b, c] \<Rightarrow>
                    (let arc = \<lparr> raw_frompc = of_int a, raw_selfpc = of_int b,
                                 raw_count = of_int c \<rparr>
                     in case fwrite (Arc arc) fp of
                          None \<Rightarrow> Some (de_error fp de)
                        | Some fp' \<Rightarrow> Some (fp', de))
                | _ \<Rightarrow> Some (de_error fp de))
      | FOOTER \<Rightarrow> None
      | ERROR \<Rightarrow> None)"


section \<open>The extractor \<^verbatim>\<open>ktrace_extract\<close>\<close>

text \<open>
  A ktrace file is read record by record: \<^verbatim>\<open>ktrace_next\<close> yields the header of the
  next record and its payload until the file ends or a read fails. The list below is
  the sequence of records that \<^verbatim>\<open>ktrace_next\<close> yields; for a record of type
  \<^verbatim>\<open>KTR_USER\<close>, \<open>ktr_id\<close> is the label of the user trace and \<open>ktr_buf\<close> the C string
  in its data area. \<^verbatim>\<open>ktrace_next\<close> leaves the program through \<^verbatim>\<open>errx\<close> on a record
  of length zero and through \<^verbatim>\<open>err\<close> when \<^verbatim>\<open>realloc\<close> fails.
\<close>

record ktr_record =
  ktr_type :: nat
  ktr_pid :: int
  ktr_len :: nat
  ktr_id :: string
  ktr_buf :: string

text \<open>The outcomes of the system calls around the loop.\<close>

record extract_env =
  mkstemp_ok :: bool
  unlink_ok :: bool
  fdopen_ok :: bool
  start_header :: "bool option"
    \<comment> \<open>\<open>None\<close>: \<^verbatim>\<open>ktrace_header\<close> fails; \<open>Some b\<close>: \<open>b\<close> tells whether the type is \<^verbatim>\<open>KTR_START\<close>\<close>
  realloc_ok :: bool
  read_error :: bool
    \<comment> \<open>whether the read that ends the record list failed, so that \<^verbatim>\<open>ferror(kfp)\<close> holds\<close>
  tmp_writes :: nat
    \<comment> \<open>the number of writes to the temporary file that succeed\<close>
  fflush_ok :: bool
  fseek_ok :: bool
  target_pid :: int

datatype extract_error =
    MkstempFailed | UnlinkFailed | FdopenFailed | HeaderReadFailed | NotKtraceFile
  | Exit1 | Aborted | ReadFailed | MalformedRecord | NoRecordSet | IncompleteRecordSet
  | FlushFailed | SeekFailed

definition GMON_LABEL :: string where
  "GMON_LABEL = ''_openbsd_libc_gmon''"

text \<open>
  The \<^verbatim>\<open>while\<close> loop of \<^verbatim>\<open>ktrace_extract\<close>. Its state is the size of the read
  buffer, the pid of the record set (once \<^verbatim>\<open>have_pid\<close> is set), the temporary file and
  the cursor. The result tells whether the loop ended because the records were
  exhausted (\<open>True\<close>) or through \<^verbatim>\<open>break\<close> (\<open>False\<close>).
\<close>

fun extract_loop ::
  "sysdefs \<Rightarrow> extract_env \<Rightarrow> nat \<Rightarrow> int option \<Rightarrow> outfile \<Rightarrow> gmon_de \<Rightarrow> ktr_record list
   \<Rightarrow> extract_error + (outfile \<times> gmon_de \<times> bool)" where
  "extract_loop d env buf_size pid fp de [] = Inr (fp, de, True)"
| "extract_loop d env buf_size pid fp de (r # rs) =
     (if ktr_len r = 0 then Inl Exit1
      else if buf_size < ktr_len r \<and> \<not> realloc_ok env then Inl Exit1
      else
        (let buf_size' = (if buf_size < ktr_len r then ktr_len r + 1 else buf_size)
         in if ktr_type r \<noteq> KTR_USER d then extract_loop d env buf_size' pid fp de rs
            else if take (length GMON_LABEL) (ktr_id r) \<noteq> GMON_LABEL
              then extract_loop d env buf_size' pid fp de rs
            else if pid = None \<and> target_pid env \<noteq> - 1 \<and> ktr_pid r \<noteq> target_pid env
              then extract_loop d env buf_size' pid fp de rs
            else if pid \<noteq> None \<and> pid \<noteq> Some (ktr_pid r)
              then extract_loop d env buf_size' pid fp de rs
            else
              (case gmon_append d fp de (ktr_buf r) of
                 None \<Rightarrow> Inl Aborted
               | Some (fp', de') \<Rightarrow>
                   if state de' = FOOTER \<or> state de' = ERROR then Inr (fp', de', False)
                   else extract_loop d env buf_size' (Some (ktr_pid r)) fp' de' rs)))"

definition ktrace_extract ::
  "sysdefs \<Rightarrow> extract_env \<Rightarrow> ktr_record list \<Rightarrow> extract_error + outfile" where
  "ktrace_extract d env recs =
     (if \<not> mkstemp_ok env then Inl MkstempFailed
      else if \<not> unlink_ok env then Inl UnlinkFailed
      else if \<not> fdopen_ok env then Inl FdopenFailed
      else (case start_header env of
              None \<Rightarrow> Inl HeaderReadFailed
            | Some is_start \<Rightarrow>
                if \<not> is_start then Inl NotKtraceFile
                else
                  (case extract_loop d env 0 None
                          \<lparr> contents = [], wr_left = tmp_writes env \<rparr>
                          \<lparr> sample_count = 0, sample_total = 0, state = HEADER \<rparr> recs of
                     Inl e \<Rightarrow> Inl e
                   | Inr (tfp, de, exhausted) \<Rightarrow>
                       if exhausted \<and> read_error env then Inl ReadFailed
                       else if state de = ERROR then Inl MalformedRecord
                       else if state de = HEADER then Inl NoRecordSet
                       else if state de \<noteq> FOOTER then Inl IncompleteRecordSet
                       else if \<not> fflush_ok env then Inl FlushFailed
                       else if \<not> fseek_ok env then Inl SeekFailed
                       else Inr tfp)))"


section \<open>Single-precision arithmetic\<close>

text \<open>
  \<^verbatim>\<open>monstartup\<close> computes its scale in \<^verbatim>\<open>float\<close>. A finite \<^verbatim>\<open>float\<close> is a rational
  number, and every operation of IEEE 754 binary32 is the exact operation followed by
  rounding to 24 significant bits, to nearest with ties to even. \<open>ilog2 x\<close> is the
  exponent \<open>e\<close> with \<open>2\<^sup>e \<le> x < 2\<^sup>e\<^sup>+\<^sup>1\<close>. The exponent range of the format is not
  modelled: the operands of \<^verbatim>\<open>monstartup\<close> lie between \<open>2\<^sup>-\<^sup>6\<^sup>4\<close> and \<open>2\<^sup>8\<^sup>0\<close>, far from
  overflow and underflow. The expression is taken to be evaluated in \<^verbatim>\<open>float\<close>
  (\<^verbatim>\<open>FLT_EVAL_METHOD\<close> 0).
\<close>

function ilog2 :: "rat \<Rightarrow> int" where
  "ilog2 x = (if x \<le> 0 then 0
              else if x < 1 then ilog2 (2 * x) - 1
              else if 2 \<le> x then ilog2 (x / 2) + 1
              else 0)"
  by pat_completeness auto
termination
proof (relation "measure (\<lambda>x. if x < 1 then nat \<lceil>1 / x\<rceil> + 1 else nat \<lfloor>x\<rfloor>)")
  show "wf (measure (\<lambda>x::rat. if x < 1 then nat \<lceil>1 / x\<rceil> + 1 else nat \<lfloor>x\<rfloor>))"
    by simp
next
  fix x :: rat
  assume a: "\<not> x \<le> 0" "x < 1"
  show "(2 * x, x) \<in> measure (\<lambda>x. if x < 1 then nat \<lceil>1 / x\<rceil> + 1 else nat \<lfloor>x\<rfloor>)"
  proof (cases "2 * x < 1")
    case True
    have y: "2 < 1 / x" using a True by (simp add: field_simps)
    have "1 / (2 * x) = (1 / x) / 2" by simp
    also have "\<dots> \<le> 1 / x - 1" using y by simp
    finally have "\<lceil>1 / (2 * x)\<rceil> \<le> \<lceil>1 / x - 1\<rceil>" by (rule ceiling_mono)
    then have "\<lceil>1 / (2 * x)\<rceil> < \<lceil>1 / x\<rceil>" by simp
    moreover have "0 < \<lceil>1 / x\<rceil>" using a by simp
    ultimately show ?thesis using a True by simp
  next
    case False
    then have "2 * x < 2" "1 \<le> 2 * x" using a by simp_all
    then have "\<lfloor>2 * x\<rfloor> = 1" by linarith
    moreover have "0 < \<lceil>1 / x\<rceil>" using a by simp
    ultimately show ?thesis using a False by simp
  qed
next
  fix x :: rat
  assume a: "\<not> x \<le> 0" "\<not> x < 1" "2 \<le> x"
  have "x / 2 \<le> x - 1" using a by simp
  then have "\<lfloor>x / 2\<rfloor> \<le> \<lfloor>x - 1\<rfloor>" by (rule floor_mono)
  then have "\<lfloor>x / 2\<rfloor> < \<lfloor>x\<rfloor>" by simp
  moreover have "\<not> x / 2 < 1" using a by simp
  moreover have "0 < \<lfloor>x\<rfloor>" using a by simp
  ultimately show "(x / 2, x) \<in> measure (\<lambda>x. if x < 1 then nat \<lceil>1 / x\<rceil> + 1 else nat \<lfloor>x\<rfloor>)"
    using a by simp
qed

declare ilog2.simps [simp del]

definition round_even :: "rat \<Rightarrow> int" where
  "round_even q =
     (let f = \<lfloor>q\<rfloor>; r = q - of_int f
      in if r < 1 / 2 then f
         else if 1 / 2 < r then f + 1
         else if even f then f else f + 1)"

definition pow2 :: "int \<Rightarrow> rat" where
  "pow2 e = (if 0 \<le> e then 2 ^ nat e else 1 / 2 ^ nat (- e))"

definition f32 :: "rat \<Rightarrow> rat" where
  "f32 x =
     (if x = 0 then 0
      else (let a = \<bar>x\<bar>; u = pow2 (ilog2 a - 23)
            in sgn x * (of_int (round_even (a / u)) * u)))"

text \<open>
  Conversion of a \<^verbatim>\<open>float\<close> to \<^verbatim>\<open>int\<close> discards the fractional part. For a value
  outside the range of \<^verbatim>\<open>int\<close> the conversion is undefined in C; the conversion
  instruction of amd64 then delivers \<^verbatim>\<open>INT_MIN\<close>, and so does the model.
\<close>

definition trunc :: "rat \<Rightarrow> int" where
  "trunc q = (if 0 \<le> q then \<lfloor>q\<rfloor> else \<lceil>q\<rceil>)"

definition float_to_int :: "rat \<Rightarrow> int" where
  "float_to_int q =
     (let t = trunc q in if - (2 ^ 31) \<le> t \<and> t < 2 ^ 31 then t else - (2 ^ 31))"


section \<open>The capture side: \<^verbatim>\<open>gmon.c\<close>\<close>

datatype gmon_prof = GMON_PROF_ON | GMON_PROF_BUSY | GMON_PROF_ERROR | GMON_PROF_OFF

record tostruct =
  selfpc :: u_long
  count :: u_long
  link :: u_short

text \<open>
  \<^verbatim>\<open>struct gmonparam\<close>. The three regions are lists: \<open>kcount\<close> and \<open>froms\<close> of
  16-bit counters and indices, \<open>tos\<close> of arc records. \<open>tolimit\<close> is a \<^verbatim>\<open>long\<close>, read
  with \<open>sint\<close>.
\<close>

record gmonparam =
  prof_state :: gmon_prof
  kcount :: "u_short list"
  kcountsize :: u_long
  froms :: "u_short list"
  fromssize :: u_long
  tos :: "tostruct list"
  tossize :: u_long
  tolimit :: u_long
  lowpc :: u_long
  highpc :: u_long
  textsize :: u_long
  hashfraction :: u_long

text \<open>
  Modelled from the spec: the macros \<^verbatim>\<open>ROUNDDOWN\<close> and \<^verbatim>\<open>ROUNDUP\<close> of
  \<^verbatim>\<open>sys/gmon.h\<close>, by which the bounds are "rounded outward to a bucket-size
  multiple", in the unsigned 64-bit arithmetic of their arguments.
\<close>

definition ROUNDDOWN :: "u_long \<Rightarrow> u_long \<Rightarrow> u_long" where
  "ROUNDDOWN x y = (x div y) * y"

definition ROUNDUP :: "u_long \<Rightarrow> u_long \<Rightarrow> u_long" where
  "ROUNDUP x y = ((x + y - 1) div y) * y"

text \<open>
  \<^verbatim>\<open>mmap\<close> of an anonymous region: it fails for a length of zero, and otherwise
  succeeds or not as the system decides (\<open>mm\<close>, by the number of the call).
\<close>

definition mmap :: "(nat \<Rightarrow> u_long \<Rightarrow> bool) \<Rightarrow> nat \<Rightarrow> u_long \<Rightarrow> bool" where
  "mmap mm k len = (len \<noteq> 0 \<and> mm k len)"

text \<open>
  The scale. The branch compiled is the one under \<^verbatim>\<open>#ifndef notdef\<close>:
  \<^verbatim>\<open>s_scale = ((float)p->kcountsize / o) * SCALE_1_TO_1\<close>, with \<^verbatim>\<open>int o\<close> and
  \<^verbatim>\<open>SCALE_1_TO_1\<close> the \<^verbatim>\<open>long\<close> \<open>0x10000\<close>; the result is converted to \<^verbatim>\<open>int\<close>.
  The branch is entered only when \<^verbatim>\<open>p->kcountsize < o\<close> (compared as
  \<^verbatim>\<open>unsigned long\<close>), so \<open>o\<close> is not zero there; a quotient by zero would be infinite
  or not a number, which the conversion treats like every value out of range. The
  branch under \<^verbatim>\<open>#else\<close> is compiled only when \<^verbatim>\<open>notdef\<close> is defined and is not part
  of the function.
\<close>

definition scale_float :: "u_long \<Rightarrow> int \<Rightarrow> int" where
  "scale_float ks o_int =
     (if o_int = 0 then - (2 ^ 31)
      else float_to_int
             (f32 (f32 (f32 (of_int (uint ks)) / f32 (of_int o_int)) * f32 65536)))"

text \<open>
  \<^verbatim>\<open>monstartup\<close>, in its three steps. First the bounds and the sizes derived from
  them (the global \<^verbatim>\<open>_gmonparam\<close> starts in state \<^verbatim>\<open>GMON_PROF_OFF\<close>); the regions
  are as \<^verbatim>\<open>mmap\<close> delivers them, filled with zeros. \<^verbatim>\<open>HISTCOUNTER\<close> is two bytes
  wide (\<^verbatim>\<open>_mcleanup\<close> asserts it).
\<close>

definition startup_sizes :: "sysdefs \<Rightarrow> u_long \<Rightarrow> u_long \<Rightarrow> gmonparam" where
  "startup_sizes d lowpc0 highpc0 =
     (let g = of_nat (HISTFRACTION d * 2) :: u_long;
          lo = ROUNDDOWN lowpc0 g;
          hi = ROUNDUP highpc0 g;
          ts = hi - lo;
          ks = ts div of_nat (HISTFRACTION d);
          hf = of_nat (HASHFRACTION d) :: u_long;
          fs = ts div hf;
          tl0 = ts * of_nat (ARCDENSITY d) div 100;
          tl = (if sint tl0 < int (MINARCS d) then of_nat (MINARCS d)
                else if int (MAXARCS d) < sint tl0 then of_nat (MAXARCS d)
                else tl0);
          tsz = tl * of_nat (sizeof_tostruct d)
      in \<lparr> prof_state = GMON_PROF_OFF,
           kcount = replicate (unat ks div 2) 0, kcountsize = ks,
           froms = replicate (unat fs div 2) 0, fromssize = fs,
           tos = replicate (unat tl) \<lparr> selfpc = 0, count = 0, link = 0 \<rparr>,
           tossize = tsz, tolimit = tl, lowpc = lo, highpc = hi, textsize = ts,
           hashfraction = hf \<rparr>)"

text \<open>Then the scale, from \<^verbatim>\<open>int o = p->highpc - p->lowpc\<close>.\<close>

definition startup_scale :: "gmonparam \<Rightarrow> int" where
  "startup_scale p =
     (let o_int = sint (ucast (highpc p - lowpc p) :: 32 word)
      in if kcountsize p < of_int o_int then scale_float (kcountsize p) o_int
         else 0x10000)"

definition moncontrol :: "bool \<Rightarrow> gmonparam \<Rightarrow> gmonparam" where
  "moncontrol mode p = p\<lparr> prof_state := (if mode then GMON_PROF_ON else GMON_PROF_OFF) \<rparr>"

text \<open>
  The whole: the session after \<^verbatim>\<open>moncontrol(1)\<close> and the scale handed to
  \<^verbatim>\<open>profil\<close>, or \<open>None\<close> when a region cannot be mapped.
\<close>

definition monstartup ::
  "sysdefs \<Rightarrow> (nat \<Rightarrow> u_long \<Rightarrow> bool) \<Rightarrow> u_long \<Rightarrow> u_long \<Rightarrow> (gmonparam \<times> int) option" where
  "monstartup d mm lowpc0 highpc0 =
     (let p = startup_sizes d lowpc0 highpc0
      in if \<not> mmap mm 0 (kcountsize p) then None
         else if \<not> mmap mm 1 (fromssize p) then None
         else if \<not> mmap mm 2 (tossize p) then None
         else Some (moncontrol True p, startup_scale p))"

subsection \<open>The finalizer \<^verbatim>\<open>_mcleanup\<close>\<close>

text \<open>
  The trace channel: \<^verbatim>\<open>utrace\<close> appends one record, or fails. \<open>ok_left\<close> is the
  number of calls that succeed before the first failure; the finalizer makes no call
  after a failed one.
\<close>

record chan =
  sent :: "string list"
  ok_left :: nat

definition utrace :: "string \<Rightarrow> chan \<Rightarrow> chan option" where
  "utrace s ch =
     (if ok_left ch = 0 then None
      else Some (ch\<lparr> sent := sent ch @ [s], ok_left := ok_left ch - 1 \<rparr>))"

text \<open>
  Why the finalizer stops early: \<open>GotoOut\<close> for the jumps to \<^verbatim>\<open>out\<close> (a record too
  long for the buffer, a failed \<^verbatim>\<open>utrace\<close>), \<open>AssertFailed\<close> for a failed
  \<^verbatim>\<open>assert\<close>, \<open>BadAccess\<close> for a read outside a region (undefined in C).
\<close>

datatype stop = GotoOut | AssertFailed | BadAccess

definition gmonhdr_record :: "gmonhdr \<Rightarrow> string" where
  "gmonhdr_record h =
     ''gmonhdr '' @ hex (unat (lpc h)) @ '' '' @ hex (unat (hpc h)) @ '' '' @
     hex (unat (ncnt h)) @ '' '' @ hex (unat (version h)) @ '' '' @ hex (unat (profrate h))"

definition rawarc_record :: "rawarc \<Rightarrow> string" where
  "rawarc_record a =
     ''rawarc '' @ hex (unat (raw_frompc a)) @ '' '' @ hex (unat (raw_selfpc a)) @ '' '' @
     hex (unat (raw_count a))"

text \<open>
  The inner loop over \<open>j\<close>: each sample is appended as a blank and four digits;
  \<open>length ubuf\<close> is \<^verbatim>\<open>off\<close>, \<open>sz\<close> is \<^verbatim>\<open>sizeof ubuf\<close>. Sizes and indices are natural
  numbers: for a buffer of at least six bytes no \<^verbatim>\<open>size_t\<close> operation of the
  function wraps around.
\<close>

function kcount_inner ::
  "nat \<Rightarrow> u_short list \<Rightarrow> nat \<Rightarrow> nat \<Rightarrow> string \<Rightarrow> stop + string" where
  "kcount_inner sz kc j limit ubuf =
     (if j < limit then
        (if j < length kc then
           (let piece = '' '' @ hex04 (kc ! j); ubuf' = ubuf @ piece
            in if length piece \<noteq> 5 then Inl AssertFailed
               else if \<not> length ubuf' < sz then Inl AssertFailed
               else kcount_inner sz kc (j + 1) limit ubuf')
         else Inl BadAccess)
      else Inr ubuf)"
  by pat_completeness auto
termination
  by (relation "measure (\<lambda>(sz, kc, j, limit, ubuf). limit - j)") auto

declare kcount_inner.simps [simp del]

text \<open>
  The outer loop over \<open>i\<close>: one record per round; \<open>stotal\<close> and \<open>slimit\<close> are
  \<^verbatim>\<open>sample_total\<close> and \<^verbatim>\<open>sample_limit\<close>.
\<close>

function kcount_outer ::
  "nat \<Rightarrow> u_short list \<Rightarrow> nat \<Rightarrow> nat \<Rightarrow> nat \<Rightarrow> chan \<Rightarrow> stop option \<times> chan" where
  "kcount_outer sz kc stotal slimit i ch =
     (if i < stotal then
        (let limit = (if stotal - i < slimit then stotal
                      else i + slimit)
         in case kcount_inner sz kc i limit ''kcount'' of
              Inl e \<Rightarrow> (Some e, ch)
            | Inr ubuf \<Rightarrow>
                (case utrace ubuf ch of
                   None \<Rightarrow> (Some GotoOut, ch)
                 | Some ch' \<Rightarrow> kcount_outer sz kc stotal slimit limit ch'))
      else (None, ch))"
  by pat_completeness auto
termination
  by (relation "measure (\<lambda>(sz, kc, st, sl, i, ch). ok_left ch)")
     (auto simp: utrace_def split: if_splits)

declare kcount_outer.simps [simp del]

text \<open>The walk along one chain of arcs, from \<open>toindex\<close> through the links.\<close>

function chain_out ::
  "nat \<Rightarrow> tostruct list \<Rightarrow> u_long \<Rightarrow> nat \<Rightarrow> chan \<Rightarrow> stop option \<times> chan" where
  "chain_out sz ts frompc toindex ch =
     (if toindex \<noteq> 0 then
        (if toindex < length ts then
           (let arc = \<lparr> raw_frompc = frompc, raw_selfpc = selfpc (ts ! toindex),
                         raw_count = count (ts ! toindex) \<rparr>;
                ubuf = rawarc_record arc
            in if sz \<le> length ubuf then (Some GotoOut, ch)
               else (case utrace ubuf ch of
                       None \<Rightarrow> (Some GotoOut, ch)
                     | Some ch' \<Rightarrow> chain_out sz ts frompc (unat (link (ts ! toindex))) ch'))
         else (Some BadAccess, ch))
      else (None, ch))"
  by pat_completeness auto
termination
  by (relation "measure (\<lambda>(sz, ts, frompc, toindex, ch). ok_left ch)")
     (auto simp: utrace_def split: if_splits)

declare chain_out.simps [simp del]

text \<open>The loop over the from-table; \<^verbatim>\<open>sizeof(*p->froms)\<close> is 2.\<close>

function froms_loop ::
  "nat \<Rightarrow> gmonparam \<Rightarrow> int \<Rightarrow> nat \<Rightarrow> chan \<Rightarrow> stop option \<times> chan" where
  "froms_loop sz p endfrom fromindex ch =
     (if int fromindex < endfrom then
        (if fromindex < length (froms p) then
           (if froms p ! fromindex = 0 then froms_loop sz p endfrom (fromindex + 1) ch
            else
              (let frompc = lowpc p + of_nat fromindex * hashfraction p * 2
               in case chain_out sz (tos p) frompc (unat (froms p ! fromindex)) ch of
                    (Some e, ch') \<Rightarrow> (Some e, ch')
                  | (None, ch') \<Rightarrow> froms_loop sz p endfrom (fromindex + 1) ch'))
         else (Some BadAccess, ch))
      else (None, ch))"
  by pat_completeness auto
termination
  by (relation "measure (\<lambda>(sz, p, endfrom, fromindex, ch). nat (endfrom - int fromindex))")
     auto

declare froms_loop.simps [simp del]

text \<open>
  \<^verbatim>\<open>_mcleanup\<close>. \<open>clk\<close> is the outcome of \<^verbatim>\<open>sysctl\<close>: \<open>None\<close> when it fails, else
  the fields \<open>hz\<close> and \<open>profhz\<close> of the clock information. The message on standard
  error and \<^verbatim>\<open>moncontrol(0)\<close>, which only sets the state that is not read again, leave
  no trace in the result: the reason for an early stop, if any, and the channel.
\<close>

definition mcleanup ::
  "sysdefs \<Rightarrow> (u_int \<times> u_int) option \<Rightarrow> gmonparam \<Rightarrow> chan \<Rightarrow> stop option \<times> chan" where
  "mcleanup d clk p ch =
     (let sz = KTR_USER_MAXLEN d + 1;
          profhz = (case clk of
                      None \<Rightarrow> 0
                    | Some (hz, profhz) \<Rightarrow> if profhz = 0 then hz else profhz);
          hdr = \<lparr> lpc = lowpc p, hpc = highpc p,
                  ncnt = ucast (kcountsize p + of_nat (sizeof_gmonhdr d)),
                  version = of_nat (GMONVERSION d), profrate = profhz \<rparr>;
          ubuf = gmonhdr_record hdr
      in if sz \<le> length ubuf then (Some GotoOut, ch)
         else (case utrace ubuf ch of
                 None \<Rightarrow> (Some GotoOut, ch)
               | Some ch1 \<Rightarrow>
                   (let stotal = unat (kcountsize p) div 2;
                        slimit = (sz - 6) div 5
                    in case kcount_outer sz (kcount p) stotal slimit 0 ch1 of
                         (Some e, ch2) \<Rightarrow> (Some e, ch2)
                       | (None, ch2) \<Rightarrow>
                           (let endfrom = sint (ucast (fromssize p div 2) :: 32 word)
                            in case froms_loop sz p endfrom 0 ch2 of
                                 (Some e, ch3) \<Rightarrow> (Some e, ch3)
                               | (None, ch3) \<Rightarrow>
                                   (case utrace ''footer'' ch3 of
                                      None \<Rightarrow> (None, ch3)
                                    | Some ch4 \<Rightarrow> (None, ch4))))))"

section \<open>Notions used to state the properties\<close>

text \<open>
  The scale as the specification describes it, in its own words: with the
  natural numbers \<open>text_size\<close> and \<open>bucket_count\<close>, \<open>quotient = text_size /
  bucket_count\<close>; the scale is 1 if \<open>quotient \<ge> 0x10000\<close>, else \<open>0x10000 / quotient\<close>
  if \<open>quotient \<ge> 0x100\<close>, else \<open>0x1000000 / (text_size / (bucket_count >> 8))\<close> if
  \<open>text_size \<ge> 0x800000\<close>, else \<open>0x1000000 / ((text_size << 8) / bucket_count)\<close>.
  This is the value that the specification describes; it is not a model of a branch of
  the source.
\<close>

definition scale_staged :: "nat \<Rightarrow> nat \<Rightarrow> nat" where
  "scale_staged text_size bucket_count =
     (let quot = text_size div bucket_count
      in if 0x10000 \<le> quot then 1
         else if 0x100 \<le> quot then 0x10000 div quot
         else if 0x800000 \<le> text_size
           then 0x1000000 div (text_size div (bucket_count div 2 ^ 8))
         else 0x1000000 div ((text_size * 2 ^ 8) div bucket_count))"

text \<open>
  A well-formed sample field is four hexadecimal digits, \<open>0-9\<close> and \<open>a-f\<close>; a
  \<open>kcount\<close> record is the tag followed by fields, each after one blank.
\<close>

definition hexdigit :: "char \<Rightarrow> bool" where
  "hexdigit c = (c \<in> set ''0123456789abcdef'')"

definition well_formed_field :: "string \<Rightarrow> bool" where
  "well_formed_field f = (length f = 4 \<and> list_all hexdigit f)"

text \<open>
  The sample that the inner loop of the \<open>KCOUNT\<close> case makes of a field (0 for a
  field that the loop refuses).
\<close>

definition field_value :: "string \<Rightarrow> u_short" where
  "field_value f = (case sample_loop 0 f of None \<Rightarrow> 0 | Some v \<Rightarrow> v)"

definition kcount_trace :: "string list \<Rightarrow> string" where
  "kcount_trace fs = ''kcount'' @ concat (map ((#) (CHR '' '')) fs)"

fun rest_of :: "string list \<Rightarrow> string option" where
  "rest_of [] = None"
| "rest_of (f # fs) = Some (f @ concat (map ((#) (CHR '' '')) fs))"

text \<open>
  The records of one process as \<^verbatim>\<open>ktrace_next\<close> yields them: what \<^verbatim>\<open>utrace\<close> was
  given comes back as a record of type \<^verbatim>\<open>KTR_USER\<close> with the label and the data (the
  length counts the label area of 20 bytes and the data).
\<close>

definition user_records :: "sysdefs \<Rightarrow> int \<Rightarrow> string list \<Rightarrow> ktr_record list" where
  "user_records d pid ss =
     map (\<lambda>s. \<lparr> ktr_type = KTR_USER d, ktr_pid = pid, ktr_len = 20 + length s,
                ktr_id = GMON_LABEL, ktr_buf = s \<rparr>) ss"

text \<open>
  The records of a session in the words of the specification. A \<open>kcount\<close> record
  holds a run of samples, each as a blank and four digits; the samples are cut into
  runs of as many as fit one record (\<open>chunks\<close>).
\<close>

function chunks :: "nat \<Rightarrow> 'a list \<Rightarrow> 'a list list" where
  "chunks n xs = (if n = 0 \<or> xs = [] then [] else take n xs # chunks n (drop n xs))"
  by pat_completeness auto

termination
  by (relation "measure (\<lambda>(n, xs). length xs)") auto

declare chunks.simps [simp del]

definition kcount_record :: "u_short list \<Rightarrow> string" where
  "kcount_record ws = ''kcount'' @ concat (map (\<lambda>w. CHR '' '' # hex04 w) ws)"

text \<open>
  The arcs of one slot of the from-table: the indices met from the stored head along
  the link fields until the index 0. \<open>chain ts n i\<close> follows at most \<open>n\<close> links and is
  \<open>None\<close> when the walk leaves the arc pool or does not end within \<open>n\<close> steps; a pool
  of \<open>length ts\<close> arcs holds no longer chain unless it is cyclic.
\<close>

fun chain :: "tostruct list \<Rightarrow> nat \<Rightarrow> nat \<Rightarrow> nat list option" where
  "chain ts 0 i = (if i = 0 then Some [] else None)"
| "chain ts (Suc n) i =
     (if i = 0 then Some []
      else if i < length ts then map_option ((#) i) (chain ts n (unat (link (ts ! i))))
      else None)"

definition arc_of :: "tostruct list \<Rightarrow> u_long \<Rightarrow> nat \<Rightarrow> rawarc" where
  "arc_of ts frompc t =
     \<lparr> raw_frompc = frompc, raw_selfpc = selfpc (ts ! t), raw_count = count (ts ! t) \<rparr>"

text \<open>The caller address of slot \<open>i\<close>: \<open>low_pc + i * hash_fraction * slot width\<close>.\<close>

definition slot_frompc :: "gmonparam \<Rightarrow> nat \<Rightarrow> u_long" where
  "slot_frompc p i = lowpc p + of_nat i * hashfraction p * 2"

definition slot_records :: "gmonparam \<Rightarrow> nat \<Rightarrow> string list" where
  "slot_records p i =
     (case chain (tos p) (length (tos p)) (unat (froms p ! i)) of
        None \<Rightarrow> []
      | Some ts \<Rightarrow> map (\<lambda>t. rawarc_record (arc_of (tos p) (slot_frompc p i) t)) ts)"

definition chains_ok :: "gmonparam \<Rightarrow> bool" where
  "chains_ok p =
     (\<forall>i<length (froms p). chain (tos p) (length (tos p)) (unat (froms p ! i)) \<noteq> None)"

text \<open>The header of a session, and the whole record stream in the order of the spec.\<close>

definition session_header :: "sysdefs \<Rightarrow> (u_int \<times> u_int) option \<Rightarrow> gmonparam \<Rightarrow> gmonhdr" where
  "session_header d clk p =
     \<lparr> lpc = lowpc p, hpc = highpc p,
       ncnt = ucast (kcountsize p + of_nat (sizeof_gmonhdr d)),
       version = of_nat (GMONVERSION d),
       profrate = (case clk of None \<Rightarrow> 0
                   | Some (hz, profhz) \<Rightarrow> if profhz = 0 then hz else profhz) \<rparr>"

definition session_records ::
  "sysdefs \<Rightarrow> (u_int \<times> u_int) option \<Rightarrow> gmonparam \<Rightarrow> string list" where
  "session_records d clk p =
     gmonhdr_record (session_header d clk p) #
     map kcount_record (chunks ((KTR_USER_MAXLEN d + 1 - 6) div 5) (kcount p)) @
     concat (map (slot_records p) [0..<length (froms p)]) @ [''footer'']"

text \<open>The state of a session later on: same bounds and sizes, other contents.\<close>

definition session_of :: "gmonparam \<Rightarrow> gmonparam \<Rightarrow> bool" where
  "session_of p0 p =
     (\<exists>st kc fr ts. p = p0\<lparr> prof_state := st, kcount := kc, froms := fr, tos := ts \<rparr> \<and>
        length kc = length (kcount p0) \<and> length fr = length (froms p0) \<and>
        length ts = length (tos p0))"

text \<open>
  For concrete evaluations: a system that grants every mapping, and a small session,
  opened on the text \<open>0x1000 .. 0x1008\<close>, with two samples and one arc from the second
  slot to \<open>0x1100\<close>, taken three times.
\<close>

definition mmap_always :: "nat \<Rightarrow> u_long \<Rightarrow> bool" where
  "mmap_always k len = True"

definition demo_session :: gmonparam where
  "demo_session =
     (moncontrol True (startup_sizes openbsd 0x1000 0x1008))
       \<lparr> kcount := [1, 0xabc], froms := [0, 1],
         tos := (tos (startup_sizes openbsd 0x1000 0x1008))
                  [1 := \<lparr> selfpc = 0x1100, count = 3, link = 0 \<rparr>] \<rparr>"

text \<open>
  A large session: opened on the text \<open>0 .. 0x200000000\<close>, with the histogram as
  \<^verbatim>\<open>monstartup\<close> left it and one arc from the first slot of the from-table to
  \<open>0x1100\<close>, taken three times.
\<close>

definition big_session :: gmonparam where
  "big_session =
     (moncontrol True (startup_sizes openbsd 0 0x200000000))
       \<lparr> froms := (froms (startup_sizes openbsd 0 0x200000000))[0 := 1],
         tos := (tos (startup_sizes openbsd 0 0x200000000))
                  [1 := \<lparr> selfpc = 0x1100, count = 3, link = 0 \<rparr>] \<rparr>"

text \<open>
  An extractor whose system calls all succeed, with room for ten writes to the
  temporary file and no pid asked for.
\<close>

definition demo_env :: extract_env where
  "demo_env = \<lparr> mkstemp_ok = True, unlink_ok = True, fdopen_ok = True,
       start_header = Some True, realloc_ok = True, read_error = False, tmp_writes = 10,
       fflush_ok = True, fseek_ok = True, target_pid = - 1 \<rparr>"

text \<open>
  The characters that \<open>hex\<close> prints, and the value that the scanner gives to a run
  of digits that starts from the value \<open>acc\<close>.
\<close>

definition digit_char :: "char \<Rightarrow> bool" where
  "digit_char c = (\<exists>d<16. c = hexchar d)"

definition digit_sum :: "nat \<Rightarrow> string \<Rightarrow> nat" where
  "digit_sum acc ds = foldl (\<lambda>a c. a * 16 + the (xdigit_val c)) acc ds"

section \<open>Evaluation of the scanner on literals\<close>

lemma scan_hexes_numeral [simp]:
  "scan_hexes (numeral k) s =
     (case scan_hex s of None \<Rightarrow> [] | Some (v, r) \<Rightarrow> v # scan_hexes (pred_numeral k) r)"
  by (simp add: numeral_eq_Suc)

lemmas scan_defs = sscanf_hex_def scan_hex_def scan_sign_def scan_0x_def xdigit_val_def isspace_def

lemmas de_eval = gmon_append_def fwrite_def de_error_def scan_defs


section \<open>The header record in state \<open>HEADER\<close>\<close>

lemma unat_ucast_u_int [simp]: "unat (ucast (n :: u_int) :: u_long) = unat n"
proof -
  have "unat n < 2 ^ 32" using unsigned_less [of n] by simp
  then have "unat n < 2 ^ 64" by simp
  then show ?thesis by (simp add: unsigned_ucast_eq take_bit_nat_eq_self)
qed

lemma sample_total_unat:
  fixes n :: u_int
  assumes "hs \<le> unat n"
  shows "unat ((ucast n - of_nat hs :: u_long) div 2) = (unat n - hs) div 2"
proof -
  have n: "unat n < 2 ^ 32" using unsigned_less [of n] by simp
  have h: "unat (of_nat hs :: u_long) = hs"
    using assms n by (simp add: unat_of_nat)
  have le: "(of_nat hs :: u_long) \<le> ucast n"
    using assms h by (simp add: word_le_nat_alt)
  have "unat (ucast n - of_nat hs :: u_long) = unat n - hs"
    using le h by (simp add: unat_sub)
  then show ?thesis by (simp add: unat_div)
qed

text \<open>
  C10. In state \<open>HEADER\<close>, a header record whose declared byte count \<open>ncnt\<close> is
  smaller than the size of the header structure drives the cursor to \<open>ERROR\<close>; a
  record that is accepted has \<open>sample_total = (ncnt - header size) / 2\<close> with a
  difference that is not negative, and \<open>ncnt\<close> equal to the header size is accepted
  with \<open>sample_total = 0\<close> (when the header can be written to the file). The byte count
  is read as the unsigned 32-bit field of the on-disk layout.
\<close>

theorem header_ncnt_check:
  assumes st: "state de = HEADER"
    and sc: "sscanf_hex ''gmonhdr'' 5 trace = [a, b, c, e, f]"
  shows "(unat (of_int c :: u_int) < sizeof_gmonhdr d \<longrightarrow>
            gmon_append d fp de trace = Some (fp, de\<lparr> state := ERROR \<rparr>)) \<and>
         (sizeof_gmonhdr d \<le> unat (of_int c :: u_int) \<and> 0 < wr_left fp \<longrightarrow>
            (\<exists>fp' de'. gmon_append d fp de trace = Some (fp', de') \<and> state de' = KCOUNT \<and>
               sample_count de' = 0 \<and>
               unat (sample_total de') = (unat (of_int c :: u_int) - sizeof_gmonhdr d) div 2)) \<and>
         (unat (of_int c :: u_int) = sizeof_gmonhdr d \<and> 0 < wr_left fp \<longrightarrow>
            (\<exists>fp' de'. gmon_append d fp de trace = Some (fp', de') \<and> state de' = KCOUNT \<and>
               sample_total de' = 0))"
proof (intro conjI impI)
  assume "unat (of_int c :: u_int) < sizeof_gmonhdr d"
  then show "gmon_append d fp de trace = Some (fp, de\<lparr> state := ERROR \<rparr>)"
    using st sc by (simp add: gmon_append_def de_error_def)
next
  assume a: "sizeof_gmonhdr d \<le> unat (of_int c :: u_int) \<and> 0 < wr_left fp"
  then show "\<exists>fp' de'. gmon_append d fp de trace = Some (fp', de') \<and> state de' = KCOUNT \<and>
               sample_count de' = 0 \<and>
               unat (sample_total de') = (unat (of_int c :: u_int) - sizeof_gmonhdr d) div 2"
    using st sc sample_total_unat [of "sizeof_gmonhdr d" "of_int c"]
    by (simp add: gmon_append_def fwrite_def)
next
  assume a: "unat (of_int c :: u_int) = sizeof_gmonhdr d \<and> 0 < wr_left fp"
  then have "unat ((ucast (of_int c :: u_int) - of_nat (sizeof_gmonhdr d) :: u_long) div 2) = 0"
    using sample_total_unat [of "sizeof_gmonhdr d" "of_int c"] by simp
  then have "(ucast (of_int c :: u_int) - of_nat (sizeof_gmonhdr d) :: u_long) div 2 = 0"
    by (simp only: unat_eq_0)
  then show "\<exists>fp' de'. gmon_append d fp de trace = Some (fp', de') \<and> state de' = KCOUNT \<and>
               sample_total de' = 0"
    using st sc a by (simp add: gmon_append_def fwrite_def)
qed




theorem header_ncnt_check_witness:
  "gmon_append openbsd \<lparr> contents = [], wr_left = 1 \<rparr>
      \<lparr> sample_count = 0, sample_total = 0, state = HEADER \<rparr> ''gmonhdr 1000 2000 27 30af2 64''
     = Some (\<lparr> contents = [], wr_left = 1 \<rparr>,
             \<lparr> sample_count = 0, sample_total = 0, state = ERROR \<rparr>) \<and>
   (\<exists>fp' de'. gmon_append openbsd \<lparr> contents = [], wr_left = 1 \<rparr>
      \<lparr> sample_count = 0, sample_total = 0, state = HEADER \<rparr> ''gmonhdr 1000 2000 28 30af2 64''
     = Some (fp', de') \<and> state de' = KCOUNT \<and> sample_total de' = 0) \<and>
   (\<exists>fp' de'. gmon_append openbsd \<lparr> contents = [], wr_left = 1 \<rparr>
      \<lparr> sample_count = 0, sample_total = 0, state = HEADER \<rparr> ''gmonhdr 0 0 10000000000000000 0 0''
     = Some (fp', de') \<and> state de' = KCOUNT \<and> sample_count de' = 0 \<and>
       unat (sample_total de') = 2147483627)"
proof -
  let ?de = "\<lparr> sample_count = 0, sample_total = 0, state = HEADER \<rparr>"
  let ?fp = "\<lparr> contents = [], wr_left = 1 \<rparr>"
  have st: "state ?de = HEADER" by simp
  have s1: "sscanf_hex ''gmonhdr'' 5 ''gmonhdr 1000 2000 27 30af2 64'' = [4096, 8192, 39, 199410, 100]"
    by (simp add: scan_defs)
  have s2: "sscanf_hex ''gmonhdr'' 5 ''gmonhdr 1000 2000 28 30af2 64'' = [4096, 8192, 40, 199410, 100]"
    by (simp add: scan_defs)
  have s3: "sscanf_hex ''gmonhdr'' 5 ''gmonhdr 0 0 10000000000000000 0 0''
              = [0, 0, 18446744073709551615, 0, 0]"
    by (simp add: scan_defs)
  have c1: "unat (of_int 39 :: u_int) < sizeof_gmonhdr openbsd" by (simp add: openbsd_def)
  have c2: "unat (of_int 40 :: u_int) = sizeof_gmonhdr openbsd \<and> 0 < wr_left ?fp"
    by (simp add: openbsd_def)
  have u3: "unat (of_int 18446744073709551615 :: u_int) = 4294967295" by simp
  have c3: "sizeof_gmonhdr openbsd \<le> unat (of_int 18446744073709551615 :: u_int) \<and> 0 < wr_left ?fp"
    unfolding u3 by (simp add: openbsd_def)
  from header_ncnt_check [OF st s1, of openbsd ?fp] c1
  have r1: "gmon_append openbsd ?fp ?de ''gmonhdr 1000 2000 27 30af2 64''
             = Some (?fp, ?de\<lparr> state := ERROR \<rparr>)" by blast
  from header_ncnt_check [OF st s2, of openbsd ?fp] c2
  have r2: "\<exists>fp' de'. gmon_append openbsd ?fp ?de ''gmonhdr 1000 2000 28 30af2 64''
     = Some (fp', de') \<and> state de' = KCOUNT \<and> sample_total de' = 0" by blast
  from header_ncnt_check [OF st s3, of openbsd ?fp] c3
  have "\<exists>fp' de'. gmon_append openbsd ?fp ?de ''gmonhdr 0 0 10000000000000000 0 0''
     = Some (fp', de') \<and> state de' = KCOUNT \<and> sample_count de' = 0 \<and>
       unat (sample_total de') =
         (unat (of_int 18446744073709551615 :: u_int) - sizeof_gmonhdr openbsd) div 2"
    by blast
  then have r3: "\<exists>fp' de'. gmon_append openbsd ?fp ?de ''gmonhdr 0 0 10000000000000000 0 0''
     = Some (fp', de') \<and> state de' = KCOUNT \<and> sample_count de' = 0 \<and>
       unat (sample_total de') = 2147483627"
    unfolding u3 by (simp add: openbsd_def)
  from r1 r2 r3 show ?thesis by simp
qed

section \<open>Sample fields in state \<open>KCOUNT\<close>\<close>

lemma strsep_no_blank: "CHR '' '' \<notin> set t \<Longrightarrow> strsep t = (t, None)"
  by (induction t) auto

lemma strsep_blank: "CHR '' '' \<notin> set t \<Longrightarrow> strsep (t @ CHR '' '' # r) = (t, Some r)"
  by (induction t) auto

lemma strsep_fields:
  "CHR '' '' \<notin> set t \<Longrightarrow> strsep (t @ concat (map ((#) (CHR '' '')) fs)) = (t, rest_of fs)"
  by (cases fs) (simp_all add: strsep_no_blank strsep_blank)

lemma strsep_token_prefix: "strsep s = (t, r) \<Longrightarrow> take (length t) s = t"
  by (induction s arbitrary: t r) (auto split: if_splits prod.splits)

lemma hexdigit_range: "hexdigit c \<Longrightarrow> 48 \<le> (of_char c :: nat) \<and> (of_char c :: nat) \<le> 102 \<and> c \<noteq> CHR '' ''"
  by (auto simp: hexdigit_def)

lemma sample_loop_hexdigits:
  "list_all hexdigit f \<Longrightarrow> \<exists>v. sample_loop w f = Some v"
  by (induction f arbitrary: w) (auto dest: hexdigit_range)

lemma well_formed_no_blank: "well_formed_field f \<Longrightarrow> CHR '' '' \<notin> set f"
  by (auto simp: well_formed_field_def list_all_iff dest: hexdigit_range)

lemma unat_inc:
  fixes x y :: u_long
  assumes "x < y"
  shows "unat (x + 1) = unat x + 1"
proof -
  have "unat x < unat y" using assms by (simp add: word_less_nat_alt)
  moreover have "unat y < 2 ^ 64" using unsigned_less [of y] by simp
  ultimately have "unat x + unat (1 :: u_long) < 2 ^ LENGTH(64)" by simp
  then show ?thesis using unat_add_lem [of x 1] by simp
qed

lemma kcount_loop_overrun:
  assumes "\<forall>f\<in>set fs. well_formed_field f"
    and "sample_count de \<le> sample_total de"
    and "unat (sample_total de) - unat (sample_count de) < length fs"
  shows "state (snd (kcount_loop fp de (rest_of fs))) = ERROR"
  using assms
proof (induction fs arbitrary: fp de)
  case Nil
  then show ?case by simp
next
  case (Cons f fs)
  have wf: "well_formed_field f" using Cons.prems by simp
  then have sep: "strsep (f @ concat (map ((#) (CHR '' '')) fs)) = (f, rest_of fs)"
    by (simp add: strsep_fields well_formed_no_blank)
  have len: "length f = 4" using wf by (simp add: well_formed_field_def)
  obtain v where v: "sample_loop 0 f = Some v"
    using wf sample_loop_hexdigits [of f 0] by (auto simp: well_formed_field_def)
  show ?case
  proof (cases "sample_count de = sample_total de")
    case True
    then show ?thesis using sep len by (simp add: de_error_def)
  next
    case False
    then have lt: "sample_count de < sample_total de" using Cons.prems by simp
    then have inc: "unat (sample_count de + 1) = unat (sample_count de) + 1"
      by (rule unat_inc)
    show ?thesis
    proof (cases "fwrite (Sample v) fp")
      case None
      then show ?thesis using sep len v False by (simp add: de_error_def)
    next
      case (Some fp')
      let ?de = "de\<lparr> sample_count := sample_count de + 1 \<rparr>"
      have "state (snd (kcount_loop fp' ?de (rest_of fs))) = ERROR"
      proof (rule Cons.IH)
        show "\<forall>f\<in>set fs. well_formed_field f" using Cons.prems by simp
        show "sample_count ?de \<le> sample_total ?de"
          using lt inc by (simp add: word_le_nat_alt word_less_nat_alt)
        show "unat (sample_total ?de) - unat (sample_count ?de) < length fs"
          using Cons.prems(3) lt inc by (simp add: word_less_nat_alt)
      qed
      then show ?thesis using sep len v False Some by simp
    qed
  qed
qed

lemma kcount_loop_exact:
  "kcount_loop fp de t = (fp', de') \<Longrightarrow>
     sample_total de' = sample_total de \<and>
     (state de' = ERROR \<or>
      (state de' = RAWARC \<and> sample_count de' = sample_total de') \<or>
      (state de' = state de \<and> sample_count de' \<noteq> sample_total de'))"
proof (induction fp de t arbitrary: fp' de' rule: kcount_loop.induct)
  case (1 fp de)
  then show ?case by (auto split: if_splits)
next
  case (2 fp de trace)
  obtain p rest where sep: "strsep trace = (p, rest)" by (cases "strsep trace")
  show ?case
  proof (cases "length p \<noteq> 4 \<or> sample_count de = sample_total de \<or> sample_loop 0 p = None")
    case True
    then have "kcount_loop fp de (Some trace) = de_error fp de"
      using sep by (auto split: option.splits)
    then show ?thesis using "2.prems" by (auto simp: de_error_def)
  next
    case False
    then obtain v where v: "sample_loop 0 p = Some v" by auto
    show ?thesis
    proof (cases "fwrite (Sample v) fp")
      case None
      then have "kcount_loop fp de (Some trace) = de_error fp de"
        using sep False v by simp
      then show ?thesis using "2.prems" by (auto simp: de_error_def)
    next
      case (Some fp1)
      let ?de = "de\<lparr> sample_count := sample_count de + 1 \<rparr>"
      have "kcount_loop fp de (Some trace) = kcount_loop fp1 ?de rest"
        using sep False v Some by simp
      then have r: "kcount_loop fp1 ?de rest = (fp', de')" using "2.prems" by simp
      have "sample_total de' = sample_total ?de \<and>
        (state de' = ERROR \<or> (state de' = RAWARC \<and> sample_count de' = sample_total de') \<or>
         (state de' = state ?de \<and> sample_count de' \<noteq> sample_total de'))"
        using False by (intro "2.IH" [OF sep [symmetric] _ _ v Some r]) auto
      then show ?thesis by auto
    qed
  qed
qed


lemma kcount_trace_strsep:
  "strsep (kcount_trace fs) = (''kcount'', rest_of fs)"
  unfolding kcount_trace_def by (rule strsep_fields) simp

lemma sscanf_hex_rawarc:
  "sscanf_hex ''rawarc'' n s = (if take 6 s = ''rawarc'' then scan_hexes n (drop 6 s) else [])"
proof -
  have l: "length ''rawarc'' = 6" by simp
  show ?thesis unfolding sscanf_hex_def l ..
qed

lemma sscanf_hex_gmonhdr:
  "sscanf_hex ''gmonhdr'' n s = (if take 7 s = ''gmonhdr'' then scan_hexes n (drop 7 s) else [])"
proof -
  have l: "length ''gmonhdr'' = 7" by simp
  show ?thesis unfolding sscanf_hex_def l ..
qed

text \<open>
  C2. The claim is that every field that is not exactly four hexadecimal digits
  drives the cursor to \<open>ERROR\<close>. The test of the code, \<^verbatim>\<open>*p < '0' || 'f' < *p\<close>,
  lets every character between \<open>0\<close> and \<open>f\<close> pass: the field \<open>00:0\<close> is taken as the
  sample 160 and the cursor moves on to \<open>RAWARC\<close>.
\<close>

theorem kcount_accepts_non_hex_field:
  "gmon_append openbsd \<lparr> contents = [], wr_left = 1 \<rparr>
      \<lparr> sample_count = 0, sample_total = 1, state = KCOUNT \<rparr> ''kcount 00:0''
   = Some (\<lparr> contents = [Sample 160], wr_left = 0 \<rparr>,
           \<lparr> sample_count = 1, sample_total = 1, state = RAWARC \<rparr>)"
  by (simp add: de_eval)

section \<open>The exact number of samples\<close>

lemma kcount_overrun_error:
  assumes "state de = KCOUNT" and "\<forall>f\<in>set fs. well_formed_field f"
    and "sample_count de \<le> sample_total de"
    and "unat (sample_total de) - unat (sample_count de) < length fs"
  shows "\<exists>fp1 de1. gmon_append d fp de (kcount_trace fs) = Some (fp1, de1) \<and> state de1 = ERROR"
proof -
  have "state (snd (kcount_loop fp de (rest_of fs))) = ERROR"
    using assms by (intro kcount_loop_overrun) auto
  then show ?thesis
    using assms(1) by (cases "kcount_loop fp de (rest_of fs)")
      (simp add: gmon_append_def kcount_trace_strsep)
qed

lemma rawarc_state_kcount_error:
  assumes "state de = RAWARC" and "take 6 trace = ''kcount''"
  shows "gmon_append d fp de trace = Some (fp, de\<lparr> state := ERROR \<rparr>)"
proof -
  have "trace \<noteq> ''footer''" using assms by auto
  moreover have "sscanf_hex ''rawarc'' 3 trace = []"
    using assms by (simp add: sscanf_hex_rawarc)
  ultimately show ?thesis
    using assms by (simp add: gmon_append_def de_error_def)
qed

lemma kcount_state_other_tag_error:
  assumes "state de = KCOUNT" and "trace = ''footer'' \<or> take 6 trace = ''rawarc''"
  shows "gmon_append d fp de trace = Some (fp, de\<lparr> state := ERROR \<rparr>)"
proof -
  obtain p rest where sep: "strsep trace = (p, rest)" by (cases "strsep trace")
  have "p \<noteq> ''kcount''"
  proof
    assume "p = ''kcount''"
    then have "take 6 trace = ''kcount''"
      using strsep_token_prefix [OF sep] by (simp add: eval_nat_numeral)
    then show False using assms by auto
  qed
  then show ?thesis
    using assms sep by (simp add: gmon_append_def de_error_def)
qed

lemma kcount_state_advance:
  assumes st: "state de = KCOUNT" and a: "gmon_append d fp de trace = Some (fp', de')"
  shows "sample_total de' = sample_total de \<and> state de' \<in> {KCOUNT, RAWARC, ERROR} \<and>
        (state de' = RAWARC \<longleftrightarrow> state de' \<noteq> ERROR \<and> sample_count de' = sample_total de')"
proof -
  obtain p rest where sep: "strsep trace = (p, rest)" by (cases "strsep trace")
  show ?thesis
  proof (cases "p = ''kcount''")
    case False
    then have "fp' = fp \<and> de' = de\<lparr> state := ERROR \<rparr>"
      using a st sep by (auto simp: gmon_append_def de_error_def)
    then show ?thesis by simp
  next
    case True
    then have "kcount_loop fp de rest = (fp', de')"
      using a st sep by (simp add: gmon_append_def)
    from kcount_loop_exact [OF this] st show ?thesis by auto
  qed
qed

lemma kcount_loop_count:
  assumes "\<forall>f\<in>set fs. well_formed_field f"
    and "unat (sample_count de) + length fs \<le> unat (sample_total de)"
    and "length fs \<le> wr_left fp"
  shows "kcount_loop fp de (rest_of fs) =
           (fp\<lparr> contents := contents fp @ map (\<lambda>f. Sample (field_value f)) fs,
                wr_left := wr_left fp - length fs \<rparr>,
            de\<lparr> sample_count := sample_count de + of_nat (length fs),
                state := if unat (sample_count de) + length fs = unat (sample_total de)
                         then RAWARC else state de \<rparr>)"
  using assms
proof (induction fs arbitrary: fp de)
  case Nil
  have "(unat (sample_count de) = unat (sample_total de)) = (sample_count de = sample_total de)"
    by (rule word_unat_eq_iff [symmetric])
  then show ?case by simp
next
  case (Cons f fs)
  have wf: "well_formed_field f" using Cons.prems by simp
  then have sep: "strsep (f @ concat (map ((#) (CHR '' '')) fs)) = (f, rest_of fs)"
    by (simp add: strsep_fields well_formed_no_blank)
  have len: "length f = 4" using wf by (simp add: well_formed_field_def)
  obtain v where v: "sample_loop 0 f = Some v"
    using wf sample_loop_hexdigits [of f 0] by (auto simp: well_formed_field_def)
  then have fv: "field_value f = v" by (simp add: field_value_def)
  have "unat (sample_count de) < unat (sample_total de)" using Cons.prems(2) by simp
  then have lt: "sample_count de < sample_total de" by (simp add: word_less_nat_alt)
  then have ne: "sample_count de \<noteq> sample_total de" by simp
  have inc: "unat (sample_count de + 1) = unat (sample_count de) + 1"
    using lt by (rule unat_inc)
  let ?fp = "fp\<lparr> contents := contents fp @ [Sample v], wr_left := wr_left fp - 1 \<rparr>"
  let ?de = "de\<lparr> sample_count := sample_count de + 1 \<rparr>"
  have w: "fwrite (Sample v) fp = Some ?fp" using Cons.prems(3) by (simp add: fwrite_def)
  have step: "kcount_loop fp de (rest_of (f # fs)) = kcount_loop ?fp ?de (rest_of fs)"
    using sep len v ne w by simp
  have ih: "kcount_loop ?fp ?de (rest_of fs) =
           (?fp\<lparr> contents := contents ?fp @ map (\<lambda>f. Sample (field_value f)) fs,
                wr_left := wr_left ?fp - length fs \<rparr>,
            ?de\<lparr> sample_count := sample_count ?de + of_nat (length fs),
                state := if unat (sample_count ?de) + length fs = unat (sample_total ?de)
                         then RAWARC else state ?de \<rparr>)"
  proof (rule Cons.IH)
    show "\<forall>f\<in>set fs. well_formed_field f" using Cons.prems(1) by simp
    show "unat (sample_count ?de) + length fs \<le> unat (sample_total ?de)"
      using Cons.prems(2) inc by simp
    show "length fs \<le> wr_left ?fp" using Cons.prems(3) by simp
  qed
  show ?case unfolding step ih using inc fv by (simp add: add.assoc)
qed

lemma kcount_loop_excess:
  assumes "\<forall>f\<in>set fs. well_formed_field f"
    and "sample_count de \<le> sample_total de"
    and "unat (sample_total de) - unat (sample_count de) < length fs"
    and "unat (sample_total de) - unat (sample_count de) \<le> wr_left fp"
  shows "kcount_loop fp de (rest_of fs) =
           (fp\<lparr> contents := contents fp @
                   map (\<lambda>f. Sample (field_value f))
                     (take (unat (sample_total de) - unat (sample_count de)) fs),
                wr_left := wr_left fp - (unat (sample_total de) - unat (sample_count de)) \<rparr>,
            de\<lparr> sample_count := sample_total de, state := ERROR \<rparr>)"
  using assms
proof (induction fs arbitrary: fp de)
  case Nil
  then show ?case by simp
next
  case (Cons f fs)
  have wf: "well_formed_field f" using Cons.prems by simp
  then have sep: "strsep (f @ concat (map ((#) (CHR '' '')) fs)) = (f, rest_of fs)"
    by (simp add: strsep_fields well_formed_no_blank)
  have len: "length f = 4" using wf by (simp add: well_formed_field_def)
  obtain v where v: "sample_loop 0 f = Some v"
    using wf sample_loop_hexdigits [of f 0] by (auto simp: well_formed_field_def)
  then have fv: "field_value f = v" by (simp add: field_value_def)
  show ?case
  proof (cases "sample_count de = sample_total de")
    case True
    then show ?thesis using sep len by (simp add: de_error_def)
  next
    case False
    then have lt: "sample_count de < sample_total de" using Cons.prems(2) by simp
    then have inc: "unat (sample_count de + 1) = unat (sample_count de) + 1"
      by (rule unat_inc)
    have ul: "unat (sample_count de) < unat (sample_total de)"
      using lt by (simp add: word_less_nat_alt)
    let ?k = "unat (sample_total de) - unat (sample_count de)"
    have k: "?k = Suc (?k - 1)" using ul by simp
    let ?fp = "fp\<lparr> contents := contents fp @ [Sample v], wr_left := wr_left fp - 1 \<rparr>"
    let ?de = "de\<lparr> sample_count := sample_count de + 1 \<rparr>"
    have k1: "unat (sample_total ?de) - unat (sample_count ?de) = ?k - 1" using inc by simp
    have w: "fwrite (Sample v) fp = Some ?fp" using Cons.prems(4) ul by (simp add: fwrite_def)
    have step: "kcount_loop fp de (rest_of (f # fs)) = kcount_loop ?fp ?de (rest_of fs)"
      using sep len v False w by simp
    have ih: "kcount_loop ?fp ?de (rest_of fs) =
           (?fp\<lparr> contents := contents ?fp @
                   map (\<lambda>f. Sample (field_value f))
                     (take (unat (sample_total ?de) - unat (sample_count ?de)) fs),
                wr_left := wr_left ?fp - (unat (sample_total ?de) - unat (sample_count ?de)) \<rparr>,
            ?de\<lparr> sample_count := sample_total ?de, state := ERROR \<rparr>)"
    proof (rule Cons.IH)
      show "\<forall>f\<in>set fs. well_formed_field f" using Cons.prems(1) by simp
      show "sample_count ?de \<le> sample_total ?de"
        using ul inc by (simp add: word_le_nat_alt)
      show "unat (sample_total ?de) - unat (sample_count ?de) < length fs"
        using Cons.prems(3) ul inc by simp
      show "unat (sample_total ?de) - unat (sample_count ?de) \<le> wr_left ?fp"
        using Cons.prems(4) ul inc by simp
    qed
    have tk: "take ?k (f # fs) = f # take (?k - 1) fs" by (subst k) simp
    show ?thesis unfolding step ih k1 tk using fv ul by simp
  qed
qed

lemma kcount_record_counted:
  assumes "state de = KCOUNT" and "\<forall>f\<in>set fs. well_formed_field f"
    and "unat (sample_count de) + length fs \<le> unat (sample_total de)"
    and "length fs \<le> wr_left fp"
  shows "gmon_append d fp de (kcount_trace fs) =
           Some (fp\<lparr> contents := contents fp @ map (\<lambda>f. Sample (field_value f)) fs,
                      wr_left := wr_left fp - length fs \<rparr>,
                 de\<lparr> sample_count := sample_count de + of_nat (length fs),
                     state := if unat (sample_count de) + length fs = unat (sample_total de)
                              then RAWARC else KCOUNT \<rparr>)"
  using assms(1) kcount_loop_count [OF assms(2,3,4)]
  by (simp add: gmon_append_def kcount_trace_strsep)

lemma kcount_record_excess:
  assumes "state de = KCOUNT" and "\<forall>f\<in>set fs. well_formed_field f"
    and "sample_count de \<le> sample_total de"
    and "unat (sample_total de) - unat (sample_count de) < length fs"
    and "unat (sample_total de) - unat (sample_count de) \<le> wr_left fp"
  shows "gmon_append d fp de (kcount_trace fs) =
           Some (fp\<lparr> contents := contents fp @
                        map (\<lambda>f. Sample (field_value f))
                          (take (unat (sample_total de) - unat (sample_count de)) fs),
                      wr_left := wr_left fp - (unat (sample_total de) - unat (sample_count de)) \<rparr>,
                 de\<lparr> sample_count := sample_total de, state := ERROR \<rparr>)"
  using assms(1) kcount_loop_excess [OF assms(2,3,4,5)]
  by (simp add: gmon_append_def kcount_trace_strsep)

text \<open>
  C3. For a header that declared \<open>sample_total = T\<close>. A \<open>kcount\<close> record of \<open>k\<close>
  well-formed fields that is taken with \<open>sample_count + k \<le> T\<close>, the writes to the
  file succeeding, appends the \<open>k\<close> samples, leaves \<open>sample_count + k\<close>, and stays in
  \<open>KCOUNT\<close> while the count is below \<open>T\<close>: it moves to \<open>RAWARC\<close> exactly when the count
  reaches \<open>T\<close>. A record whose well-formed fields go beyond \<open>T\<close> takes the fields up to
  the \<open>T\<close>-th and ends in \<open>ERROR\<close> at the next one, with \<open>sample_count = T\<close> (and it ends
  in \<open>ERROR\<close> whether the writes succeed or not). A \<open>kcount\<close> record that arrives after
  the \<open>T\<close>-th sample has moved the cursor to \<open>RAWARC\<close> ends in \<open>ERROR\<close>; a \<open>rawarc\<close> or
  \<open>footer\<close> record in state \<open>KCOUNT\<close> ends in \<open>ERROR\<close>; and any record taken in state
  \<open>KCOUNT\<close> leaves the cursor in \<open>RAWARC\<close> exactly when it ends without error with
  \<open>sample_count = sample_total\<close>.
\<close>

theorem sample_count_rule:
  "(state de = KCOUNT \<and> (\<forall>f\<in>set fs. well_formed_field f) \<and>
      unat (sample_count de) + length fs \<le> unat (sample_total de) \<and> length fs \<le> wr_left fp \<longrightarrow>
        gmon_append d fp de (kcount_trace fs) =
          Some (fp\<lparr> contents := contents fp @ map (\<lambda>f. Sample (field_value f)) fs,
                     wr_left := wr_left fp - length fs \<rparr>,
                de\<lparr> sample_count := sample_count de + of_nat (length fs),
                    state := if unat (sample_count de) + length fs = unat (sample_total de)
                             then RAWARC else KCOUNT \<rparr>)) \<and>
   (state de = KCOUNT \<and> (\<forall>f\<in>set fs. well_formed_field f) \<and>
      sample_count de \<le> sample_total de \<and>
      unat (sample_total de) - unat (sample_count de) < length fs \<and>
      unat (sample_total de) - unat (sample_count de) \<le> wr_left fp \<longrightarrow>
        gmon_append d fp de (kcount_trace fs) =
          Some (fp\<lparr> contents := contents fp @
                       map (\<lambda>f. Sample (field_value f))
                         (take (unat (sample_total de) - unat (sample_count de)) fs),
                     wr_left := wr_left fp - (unat (sample_total de) - unat (sample_count de)) \<rparr>,
                de\<lparr> sample_count := sample_total de, state := ERROR \<rparr>)) \<and>
   (state de = KCOUNT \<and> (\<forall>f\<in>set fs. well_formed_field f) \<and>
      sample_count de \<le> sample_total de \<and>
      unat (sample_total de) - unat (sample_count de) < length fs \<longrightarrow>
        (\<exists>fp1 de1. gmon_append d fp de (kcount_trace fs) = Some (fp1, de1) \<and> state de1 = ERROR)) \<and>
   (state de = RAWARC \<and> take 6 trace = ''kcount'' \<longrightarrow>
        gmon_append d fp de trace = Some (fp, de\<lparr> state := ERROR \<rparr>)) \<and>
   (state de = KCOUNT \<and> (trace = ''footer'' \<or> take 6 trace = ''rawarc'') \<longrightarrow>
        gmon_append d fp de trace = Some (fp, de\<lparr> state := ERROR \<rparr>)) \<and>
   (state de = KCOUNT \<and> gmon_append d fp de trace = Some (fp', de') \<longrightarrow>
        sample_total de' = sample_total de \<and> state de' \<in> {KCOUNT, RAWARC, ERROR} \<and>
        (state de' = RAWARC \<longleftrightarrow> state de' \<noteq> ERROR \<and> sample_count de' = sample_total de'))"
  using kcount_record_counted [of de fs fp d] kcount_record_excess [of de fs fp d]
    kcount_overrun_error [of de fs d fp] rawarc_state_kcount_error [of de trace d fp]
    kcount_state_other_tag_error [of de trace d fp] kcount_state_advance [of de d fp trace fp' de']
  by blast

theorem sample_count_rule_witness:
  "gmon_append openbsd \<lparr> contents = [], wr_left = 5 \<rparr>
       \<lparr> sample_count = 0, sample_total = 3, state = KCOUNT \<rparr> ''kcount 0001 0002''
     = Some (\<lparr> contents = [Sample 1, Sample 2], wr_left = 3 \<rparr>,
             \<lparr> sample_count = 2, sample_total = 3, state = KCOUNT \<rparr>) \<and>
   gmon_append openbsd \<lparr> contents = [Sample 1, Sample 2], wr_left = 3 \<rparr>
       \<lparr> sample_count = 2, sample_total = 3, state = KCOUNT \<rparr> ''kcount 0003''
     = Some (\<lparr> contents = [Sample 1, Sample 2, Sample 3], wr_left = 2 \<rparr>,
             \<lparr> sample_count = 3, sample_total = 3, state = RAWARC \<rparr>) \<and>
   gmon_append openbsd \<lparr> contents = [Sample 1, Sample 2], wr_left = 3 \<rparr>
       \<lparr> sample_count = 2, sample_total = 3, state = KCOUNT \<rparr> ''kcount 0003 0004''
     = Some (\<lparr> contents = [Sample 1, Sample 2, Sample 3], wr_left = 2 \<rparr>,
             \<lparr> sample_count = 3, sample_total = 3, state = ERROR \<rparr>) \<and>
   (\<exists>fp1 de1. gmon_append openbsd \<lparr> contents = [], wr_left = 1 \<rparr>
       \<lparr> sample_count = 1, sample_total = 1, state = KCOUNT \<rparr> ''kcount 0001'' = Some (fp1, de1) \<and>
       state de1 = ERROR) \<and>
   gmon_append openbsd \<lparr> contents = [], wr_left = 1 \<rparr>
       \<lparr> sample_count = 1, sample_total = 1, state = RAWARC \<rparr> ''kcount 0001''
     = Some (\<lparr> contents = [], wr_left = 1 \<rparr>,
             \<lparr> sample_count = 1, sample_total = 1, state = ERROR \<rparr>) \<and>
   gmon_append openbsd \<lparr> contents = [], wr_left = 1 \<rparr>
       \<lparr> sample_count = 0, sample_total = 1, state = KCOUNT \<rparr> ''footer''
     = Some (\<lparr> contents = [], wr_left = 1 \<rparr>,
             \<lparr> sample_count = 0, sample_total = 1, state = ERROR \<rparr>) \<and>
   (\<exists>fp1 de1. gmon_append openbsd \<lparr> contents = [], wr_left = 1 \<rparr>
       \<lparr> sample_count = 0, sample_total = 1, state = KCOUNT \<rparr> ''kcount 0001'' = Some (fp1, de1) \<and>
       state de1 = RAWARC \<and> sample_count de1 = sample_total de1)"
proof -
  let ?fp = "\<lparr> contents = [], wr_left = 1 \<rparr>"
  let ?full = "\<lparr> sample_count = 1, sample_total = 1, state = KCOUNT \<rparr>"
  let ?next = "\<lparr> sample_count = 1, sample_total = 1, state = RAWARC \<rparr>"
  let ?short = "\<lparr> sample_count = 0, sample_total = 1, state = KCOUNT \<rparr>"
  let ?fp5 = "\<lparr> contents = [], wr_left = 5 \<rparr>"
  let ?fp3 = "\<lparr> contents = [Sample 1, Sample 2], wr_left = 3 \<rparr>"
  let ?d0 = "\<lparr> sample_count = 0, sample_total = 3, state = KCOUNT \<rparr>"
  let ?d2 = "\<lparr> sample_count = 2, sample_total = 3, state = KCOUNT \<rparr>"
  have k: "kcount_trace [''0001''] = ''kcount 0001''" by (simp add: kcount_trace_def)
  have k12: "kcount_trace [''0001'', ''0002''] = ''kcount 0001 0002''"
    by (simp add: kcount_trace_def)
  have k3: "kcount_trace [''0003''] = ''kcount 0003''" by (simp add: kcount_trace_def)
  have k34: "kcount_trace [''0003'', ''0004''] = ''kcount 0003 0004''"
    by (simp add: kcount_trace_def)
  have wf: "well_formed_field ''0001''" "well_formed_field ''0002''"
    "well_formed_field ''0003''" "well_formed_field ''0004''"
    by (simp_all add: well_formed_field_def hexdigit_def)
  have fv: "field_value ''0001'' = 1" "field_value ''0002'' = 2" "field_value ''0003'' = 3"
    by (simp_all add: field_value_def)
  have a1: "gmon_append openbsd ?fp5 ?d0 ''kcount 0001 0002''
     = Some (?fp3, \<lparr> sample_count = 2, sample_total = 3, state = KCOUNT \<rparr>)"
    using sample_count_rule [where de = ?d0 and fs = "[''0001'', ''0002'']" and d = openbsd
        and fp = ?fp5] wf
    by (simp add: k12 fv)
  have a2: "gmon_append openbsd ?fp3 ?d2 ''kcount 0003''
     = Some (\<lparr> contents = [Sample 1, Sample 2, Sample 3], wr_left = 2 \<rparr>,
             \<lparr> sample_count = 3, sample_total = 3, state = RAWARC \<rparr>)"
    using sample_count_rule [where de = ?d2 and fs = "[''0003'']" and d = openbsd
        and fp = ?fp3] wf
    by (simp add: k3 fv)
  have a3: "gmon_append openbsd ?fp3 ?d2 ''kcount 0003 0004''
     = Some (\<lparr> contents = [Sample 1, Sample 2, Sample 3], wr_left = 2 \<rparr>,
             \<lparr> sample_count = 3, sample_total = 3, state = ERROR \<rparr>)"
    using sample_count_rule [where de = ?d2 and fs = "[''0003'', ''0004'']" and d = openbsd
        and fp = ?fp3] wf
    by (simp add: k34 fv)
  have p1: "\<exists>fp1 de1. gmon_append openbsd ?fp ?full ''kcount 0001'' = Some (fp1, de1) \<and>
       state de1 = ERROR"
    using sample_count_rule [where de = ?full and fs = "[''0001'']" and d = openbsd
        and fp = ?fp] wf
    by (simp add: k)
  have p2: "gmon_append openbsd ?fp ?next ''kcount 0001'' = Some (?fp, ?next\<lparr> state := ERROR \<rparr>)"
    using sample_count_rule [where de = ?next and fs = "[]" and d = openbsd and fp = ?fp
        and trace = "''kcount 0001''"] by simp
  have p3: "gmon_append openbsd ?fp ?short ''footer'' = Some (?fp, ?short\<lparr> state := ERROR \<rparr>)"
    using sample_count_rule [where de = ?short and fs = "[]" and d = openbsd and fp = ?fp
        and trace = "''footer''"] by simp
  have e: "gmon_append openbsd ?fp ?short ''kcount 0001''
     = Some (\<lparr> contents = [Sample 1], wr_left = 0 \<rparr>, ?next)"
    by (simp add: de_eval)
  have p4: "state ?next = RAWARC \<longleftrightarrow> state ?next \<noteq> ERROR \<and> sample_count ?next = sample_total ?next"
    using sample_count_rule [where de = ?short and fs = "[]" and d = openbsd and fp = ?fp
        and trace = "''kcount 0001''" and fp' = "\<lparr> contents = [Sample 1], wr_left = 0 \<rparr>"
        and de' = ?next] e by simp
  from a1 a2 a3 p1 p2 p3 p4 e show ?thesis by simp
qed

section \<open>Truncated and malformed record sets\<close>

lemma extract_loop_exhausted:
  assumes "extract_loop d env bs pid fp de recs = Inr (tfp, de', exhausted)"
    and "state de \<noteq> FOOTER" and "state de \<noteq> ERROR"
  shows "exhausted \<longleftrightarrow> state de' \<noteq> FOOTER \<and> state de' \<noteq> ERROR"
  using assms
proof (induction recs arbitrary: bs pid fp de)
  case Nil
  then show ?case by auto
next
  case (Cons r rs)
  then show ?case
    by (auto simp: Let_def split: if_splits option.splits prod.splits)
qed

text \<open>
  C7. When the set-up of \<^verbatim>\<open>ktrace_extract\<close> succeeds and the records are exhausted
  (without a read error) with the cursor past \<open>HEADER\<close>, the cursor is in neither
  \<open>FOOTER\<close> nor \<open>ERROR\<close> and the result is the error of the incomplete record set;
  a cursor in \<open>ERROR\<close> gives the other error, that of the malformed record; and a
  file is returned only from \<open>FOOTER\<close>.
\<close>

theorem truncation_distinguished:
  assumes "mkstemp_ok env" and "unlink_ok env" and "fdopen_ok env"
    and "start_header env = Some True"
    and "extract_loop d env 0 None \<lparr> contents = [], wr_left = tmp_writes env \<rparr>
           \<lparr> sample_count = 0, sample_total = 0, state = HEADER \<rparr> recs = Inr (tfp, de, exhausted)"
  shows "(exhausted \<and> \<not> read_error env \<and> state de \<noteq> HEADER \<longrightarrow>
            state de \<noteq> FOOTER \<and> state de \<noteq> ERROR \<and>
            ktrace_extract d env recs = Inl IncompleteRecordSet) \<and>
         (state de = ERROR \<longrightarrow> ktrace_extract d env recs = Inl MalformedRecord) \<and>
         ((\<exists>f. ktrace_extract d env recs = Inr f) \<longrightarrow> state de = FOOTER \<and> \<not> exhausted)"
proof -
  have ex: "exhausted \<longleftrightarrow> state de \<noteq> FOOTER \<and> state de \<noteq> ERROR"
    using extract_loop_exhausted [OF assms(5)] by simp
  show ?thesis
    using assms ex by (auto simp: ktrace_extract_def split: if_splits)
qed


theorem truncation_distinguished_witness:
  "ktrace_extract openbsd
      \<lparr> mkstemp_ok = True, unlink_ok = True, fdopen_ok = True, start_header = Some True,
        realloc_ok = True, read_error = False, tmp_writes = 10, fflush_ok = True,
        fseek_ok = True, target_pid = - 1 \<rparr>
      (user_records openbsd 7 [''gmonhdr 1000 1008 2c 30af2 64'', ''kcount 0001 0002''])
   = Inl IncompleteRecordSet"
proof -
  let ?env = "\<lparr> mkstemp_ok = True, unlink_ok = True, fdopen_ok = True, start_header = Some True,
        realloc_ok = True, read_error = False, tmp_writes = 10, fflush_ok = True,
        fseek_ok = True, target_pid = - 1 \<rparr>"
  let ?recs = "user_records openbsd 7 [''gmonhdr 1000 1008 2c 30af2 64'', ''kcount 0001 0002'']"
  let ?de = "\<lparr> sample_count = 2, sample_total = 2, state = RAWARC \<rparr>"
  have l: "extract_loop openbsd ?env 0 None \<lparr> contents = [], wr_left = tmp_writes ?env \<rparr>
           \<lparr> sample_count = 0, sample_total = 0, state = HEADER \<rparr> ?recs
     = Inr (\<lparr> contents = [Hdr \<lparr> lpc = 0x1000, hpc = 0x1008, ncnt = 44, version = 199410,
                                  profrate = 100 \<rparr>, Sample 1, Sample 2], wr_left = 7 \<rparr>,
            ?de, True)"
    by (simp add: user_records_def GMON_LABEL_def openbsd_def de_eval)
  have "True \<and> \<not> read_error ?env \<and> state ?de \<noteq> HEADER" by simp
  with truncation_distinguished [of ?env openbsd ?recs _ ?de True, OF _ _ _ _ l]
  show ?thesis by simp
qed

section \<open>Hexadecimal output\<close>

lemma hex_length_le: "0 < k \<Longrightarrow> n < 16 ^ k \<Longrightarrow> length (hex n) \<le> k"
proof (induction n arbitrary: k rule: hex.induct)
  case (1 n)
  show ?case
  proof (cases "n < 16")
    case True
    then show ?thesis using "1.prems" by (simp add: hex.simps)
  next
    case False
    then have k: "1 < k" using "1.prems" by (cases "k = 1") auto
    then have "n div 16 < 16 ^ (k - 1)"
      using "1.prems" by (cases k) (auto simp: less_mult_imp_div_less)
    then have "length (hex (n div 16)) \<le> k - 1"
      using "1.IH" [OF False, of "k - 1"] k by simp
    then show ?thesis using False k by (subst hex.simps) simp
  qed
qed

lemma hex_nonempty: "hex n \<noteq> []"
  by (subst hex.simps) simp

lemma hex04_length [simp]: "length (hex04 w) = 4"
proof -
  have "unat w < 2 ^ 16" using unsigned_less [of w] by simp
  then have "unat w < 16 ^ 4" by simp
  then have "length (hex (unat w)) \<le> 4" by (intro hex_length_le) simp_all
  then show ?thesis by (simp add: hex04_def Let_def)
qed

lemma hex_u_long_length: "length (hex (unat (w :: u_long))) \<le> 16"
proof -
  have "unat w < 2 ^ 64" using unsigned_less [of w] by simp
  then have "unat w < 16 ^ 16" by simp
  then show ?thesis by (intro hex_length_le) simp_all
qed

lemma hex_u_int_length: "length (hex (unat (w :: u_int))) \<le> 8"
proof -
  have "unat w < 2 ^ 32" using unsigned_less [of w] by simp
  then have "unat w < 16 ^ 8" by simp
  then show ?thesis by (intro hex_length_le) simp_all
qed

lemma rawarc_record_length: "length (rawarc_record a) \<le> 57"
  using hex_u_long_length [of "raw_frompc a"] hex_u_long_length [of "raw_selfpc a"]
    hex_u_long_length [of "raw_count a"]
  by (simp add: rawarc_record_def)

lemma gmonhdr_record_length: "length (gmonhdr_record h) \<le> 68"
  using hex_u_long_length [of "lpc h"] hex_u_long_length [of "hpc h"]
    hex_u_int_length [of "ncnt h"] hex_u_int_length [of "version h"]
    hex_u_int_length [of "profrate h"]
  by (simp add: gmonhdr_record_def)

lemma rawarc_record_take6: "take 6 (rawarc_record a) = ''rawarc''"
  by (simp add: rawarc_record_def)

lemma gmonhdr_record_take6: "take 6 (gmonhdr_record h) = ''gmonhd''"
  by (simp add: gmonhdr_record_def)

lemma kcount_record_take6: "take 6 (kcount_record ws) = ''kcount''"
  by (simp add: kcount_record_def)

lemma kcount_record_length: "length (kcount_record ws) = 6 + 5 * length ws"
  by (induction ws) (simp_all add: kcount_record_def)

lemma hex_eval:
  "hex 0x1000 = ''1000''" "hex 0x1008 = ''1008''" "hex 44 = ''2c''" "hex 199410 = ''30af2''"
  "hex 100 = ''64''" "hex 1 = ''1''" "hex 0xabc = ''abc''" "hex 0x1004 = ''1004''"
  "hex 0x1100 = ''1100''" "hex 3 = ''3''" "hex (Suc 0) = ''1''"
  by (simp_all add: hex.simps hexchar_def)

lemma replicate3: "replicate 3 c = [c, c, c]"
  by (simp add: numeral_3_eq_3)

section \<open>The finalizer never overruns its buffer\<close>

lemma kcount_inner_length:
  assumes "length ubuf + 5 * (limit - j) < sz"
  shows "kcount_inner sz kc j limit ubuf \<noteq> Inl AssertFailed \<and>
         (\<forall>u. kcount_inner sz kc j limit ubuf = Inr u \<longrightarrow>
            length u = length ubuf + 5 * (limit - j) \<and> take (length ubuf) u = ubuf)"
  using assms
proof (induction sz kc j limit ubuf rule: kcount_inner.induct)
  case (1 sz kc j limit ubuf)
  show ?case
  proof (cases "j < limit \<and> j < length kc")
    case False
    then show ?thesis by (subst (1 2) kcount_inner.simps) auto
  next
    case True
    let ?piece = "'' '' @ hex04 (kc ! j)"
    let ?u = "ubuf @ ?piece"
    have l: "length ?piece = 5" by simp
    have jl: "j < limit" and jk: "j < length kc" using True by simp_all
    have lt: "length ?u < sz" using "1.prems" jl by (simp; arith)
    have step: "kcount_inner sz kc j limit ubuf = kcount_inner sz kc (j + 1) limit ?u"
      using True lt by (subst kcount_inner.simps) (simp add: Let_def)
    have "length ?u + 5 * (limit - (j + 1)) < sz" using "1.prems" jl by (simp; arith)
    from "1.IH" [OF _ _ refl refl _ _ this] True lt
    have ih: "kcount_inner sz kc (j + 1) limit ?u \<noteq> Inl AssertFailed \<and>
         (\<forall>u. kcount_inner sz kc (j + 1) limit ?u = Inr u \<longrightarrow>
            length u = length ?u + 5 * (limit - (j + 1)) \<and> take (length ?u) u = ?u)"
      by simp
    show ?thesis
    proof (intro conjI allI impI)
      show "kcount_inner sz kc j limit ubuf \<noteq> Inl AssertFailed" using ih step by simp
    next
      fix u assume "kcount_inner sz kc j limit ubuf = Inr u"
      then have u: "length u = length ?u + 5 * (limit - (j + 1)) \<and> take (length ?u) u = ?u"
        using ih step by simp
      then show "length u = length ubuf + 5 * (limit - j)" using jl by (simp; arith)
      from u have "take (length ubuf) (take (length ?u) u) = take (length ubuf) ?u" by simp
      then show "take (length ubuf) u = ubuf" by (simp add: min_def)
    qed
  qed
qed

lemma kcount_inner_exact:
  assumes "length ubuf + 5 * (limit - j) < sz" and "limit \<le> length kc"
  shows "kcount_inner sz kc j limit ubuf =
           Inr (ubuf @ concat (map (\<lambda>w. CHR '' '' # hex04 w) (take (limit - j) (drop j kc))))"
  using assms
proof (induction sz kc j limit ubuf rule: kcount_inner.induct)
  case (1 sz kc j limit ubuf)
  show ?case
  proof (cases "j < limit")
    case False
    then show ?thesis by (subst kcount_inner.simps) simp
  next
    case True
    then have jk: "j < length kc" using "1.prems" by simp
    let ?piece = "'' '' @ hex04 (kc ! j)"
    let ?u = "ubuf @ ?piece"
    have lt: "length ?u < sz" using "1.prems" True by (simp; arith)
    have step: "kcount_inner sz kc j limit ubuf = kcount_inner sz kc (j + 1) limit ?u"
      using True jk lt by (subst kcount_inner.simps) (simp add: Let_def)
    have b: "length ?u + 5 * (limit - (j + 1)) < sz" using "1.prems" True by (simp; arith)
    have ih: "kcount_inner sz kc (j + 1) limit ?u =
        Inr (?u @ concat (map (\<lambda>w. CHR '' '' # hex04 w) (take (limit - (j + 1)) (drop (j + 1) kc))))"
      using "1.IH" [OF True jk refl refl _ _ b "1.prems"(2)] lt by simp
    have d: "drop j kc = kc ! j # drop (j + 1) kc"
      using jk by (simp add: Cons_nth_drop_Suc)
    have t: "limit - j = Suc (limit - (j + 1))" using True by simp
    show ?thesis unfolding step ih d t by simp
  qed
qed

lemma kcount_outer_records:
  assumes "kcount_outer sz kc stotal slimit i ch = (e, ch')" and "6 + 5 * slimit < sz"
  shows "e \<noteq> Some AssertFailed \<and>
         (\<exists>rs. sent ch' = sent ch @ rs \<and>
            (\<forall>r\<in>set rs. take 6 r = ''kcount'' \<and> (\<exists>n. n \<le> slimit \<and>  length r = 6 + 5 * n)))"
  using assms
proof (induction sz kc stotal slimit i ch arbitrary: e ch' rule: kcount_outer.induct)
  case (1 sz kc stotal slimit i ch)
  let ?limit = "if stotal - i < slimit then stotal else i + slimit"
  show ?case
  proof (cases "i < stotal")
    case False
    then have "e = None \<and> ch' = ch"
      using "1.prems"(1) by (subst (asm) kcount_outer.simps) simp
    then show ?thesis by simp
  next
    case True
    have n: "?limit - i \<le> slimit" by simp
    then have b: "length ''kcount'' + 5 * (?limit - i) < sz" using "1.prems"(2) by simp
    note inner = kcount_inner_length [OF b, of kc]
    show ?thesis
    proof (cases "kcount_inner sz kc i ?limit ''kcount''")
      case (Inl x)
      then have "e = Some x \<and> ch' = ch"
        using "1.prems"(1) True by (subst (asm) kcount_outer.simps) (simp add: Let_def)
      then show ?thesis using inner Inl by auto
    next
      case (Inr ubuf)
      have l6: "length ''kcount'' = 6" by simp
      have "length ubuf = length ''kcount'' + 5 * (?limit - i) \<and>
            take (length ''kcount'') ubuf = ''kcount''"
        using inner Inr by blast
      then have lu: "length ubuf = 6 + 5 * (?limit - i)" and tu: "take 6 ubuf = ''kcount''"
        unfolding l6 by blast+
      show ?thesis
      proof (cases "utrace ubuf ch")
        case None
        then have "e = Some GotoOut \<and> ch' = ch"
          using "1.prems"(1) True Inr by (subst (asm) kcount_outer.simps) (simp add: Let_def)
        then show ?thesis by simp
      next
        case (Some ch1)
        then have s1: "sent ch1 = sent ch @ [ubuf]"
          by (auto simp: utrace_def split: if_splits)
        have "kcount_outer sz kc stotal slimit ?limit ch1 = (e, ch')"
          using "1.prems"(1) True Inr Some by (subst (asm) kcount_outer.simps) (simp add: Let_def)
        from "1.IH" [OF True refl Inr Some this "1.prems"(2)]
        obtain rs where rs: "e \<noteq> Some AssertFailed" "sent ch' = sent ch1 @ rs"
          "\<forall>r\<in>set rs. take 6 r = ''kcount'' \<and> (\<exists>n. n \<le> slimit \<and>  length r = 6 + 5 * n)"
          by blast
        have "sent ch' = sent ch @ (ubuf # rs)" using rs s1 by simp
        moreover have "\<forall>r\<in>set (ubuf # rs). take 6 r = ''kcount'' \<and> (\<exists>n. n \<le> slimit \<and>  length r = 6 + 5 * n)"
          using rs(3) lu tu n by auto
        ultimately show ?thesis using rs(1) by blast
      qed
    qed
  qed
qed

lemma chain_out_records:
  assumes "chain_out sz ts frompc i ch = (e, ch')"
  shows "e \<noteq> Some AssertFailed \<and>
         (\<exists>rs. sent ch' = sent ch @ rs \<and>
            (\<forall>r\<in>set rs. take 6 r = ''rawarc'' \<and> length r < sz))"
  using assms
proof (induction sz ts frompc i ch arbitrary: e ch' rule: chain_out.induct)
  case (1 sz ts frompc toindex ch)
  let ?ubuf = "rawarc_record \<lparr> raw_frompc = frompc, raw_selfpc = selfpc (ts ! toindex),
                         raw_count = count (ts ! toindex) \<rparr>"
  show ?case
  proof (cases "toindex \<noteq> 0 \<and> toindex < length ts \<and> \<not> sz \<le> length ?ubuf \<and> utrace ?ubuf ch \<noteq> None")
    case False
    then have "ch' = ch \<and> e \<noteq> Some AssertFailed"
      using "1.prems" by (subst (asm) chain_out.simps) (auto simp: Let_def split: if_splits)
    then show ?thesis by simp
  next
    case True
    then obtain ch1 where ch1: "utrace ?ubuf ch = Some ch1" by auto
    then have s1: "sent ch1 = sent ch @ [?ubuf]"
      by (auto simp: utrace_def split: if_splits)
    have "chain_out sz ts frompc (unat (link (ts ! toindex))) ch1 = (e, ch')"
      using "1.prems" True ch1 by (subst (asm) chain_out.simps) (simp add: Let_def)
    from "1.IH" [OF _ _ refl refl _ ch1 this] True
    obtain rs where rs: "e \<noteq> Some AssertFailed" "sent ch' = sent ch1 @ rs"
      "\<forall>r\<in>set rs. take 6 r = ''rawarc'' \<and> length r < sz"
      by auto
    have "sent ch' = sent ch @ (?ubuf # rs)" using rs s1 by simp
    moreover have "\<forall>r\<in>set (?ubuf # rs). take 6 r = ''rawarc'' \<and> length r < sz"
      using rs(3) True by (simp add: rawarc_record_take6)
    ultimately show ?thesis using rs(1) by blast
  qed
qed

lemma froms_loop_records:
  assumes "froms_loop sz p endfrom i ch = (e, ch')"
  shows "e \<noteq> Some AssertFailed \<and>
         (\<exists>rs. sent ch' = sent ch @ rs \<and>
            (\<forall>r\<in>set rs. take 6 r = ''rawarc'' \<and> length r < sz))"
  using assms
proof (induction sz p endfrom i ch arbitrary: e ch' rule: froms_loop.induct)
  case (1 sz p endfrom fromindex ch)
  let ?frompc = "lowpc p + of_nat fromindex * hashfraction p * 2"
  show ?case
  proof (cases "int fromindex < endfrom \<and> fromindex < length (froms p)")
    case False
    then have "ch' = ch \<and> e \<noteq> Some AssertFailed"
      using "1.prems" by (subst (asm) froms_loop.simps) (auto split: if_splits)
    then show ?thesis by simp
  next
    case True
    show ?thesis
    proof (cases "froms p ! fromindex = 0")
      case z: True
      have "froms_loop sz p endfrom (fromindex + 1) ch = (e, ch')"
        using "1.prems" True z by (subst (asm) froms_loop.simps) simp
      from "1.IH"(1) [OF _ _ z this] True show ?thesis by simp
    next
      case nz: False
      obtain e1 ch1 where c: "chain_out sz (tos p) ?frompc (unat (froms p ! fromindex)) ch = (e1, ch1)"
        by (cases "chain_out sz (tos p) ?frompc (unat (froms p ! fromindex)) ch")
      from chain_out_records [OF c]
      obtain rs1 where rs1: "e1 \<noteq> Some AssertFailed" "sent ch1 = sent ch @ rs1"
        "\<forall>r\<in>set rs1. take 6 r = ''rawarc'' \<and> length r < sz" by blast
      show ?thesis
      proof (cases e1)
        case (Some x)
        then have "e = e1 \<and> ch' = ch1"
          using "1.prems" True nz c by (subst (asm) froms_loop.simps) (simp add: Let_def)
        then show ?thesis using rs1 by blast
      next
        case None
        then have "froms_loop sz p endfrom (fromindex + 1) ch1 = (e, ch')"
          using "1.prems" True nz c by (subst (asm) froms_loop.simps) (simp add: Let_def)
        from "1.IH"(2) [OF _ _ nz refl c [symmetric, unfolded None] refl this] True
        obtain rs where rs: "e \<noteq> Some AssertFailed" "sent ch' = sent ch1 @ rs"
          "\<forall>r\<in>set rs. take 6 r = ''rawarc'' \<and> length r < sz" by auto
        have "sent ch' = sent ch @ (rs1 @ rs)" using rs rs1 by simp
        moreover have "\<forall>r\<in>set (rs1 @ rs). take 6 r = ''rawarc'' \<and> length r < sz"
          using rs rs1 by auto
        ultimately show ?thesis using rs(1) by blast
      qed
    qed
  qed
qed

lemma mcleanup_unfold:
  "mcleanup d clk p ch =
     (let sz = KTR_USER_MAXLEN d + 1; ubuf = gmonhdr_record (session_header d clk p)
      in if sz \<le> length ubuf then (Some GotoOut, ch)
         else (case utrace ubuf ch of
                 None \<Rightarrow> (Some GotoOut, ch)
               | Some ch1 \<Rightarrow>
                   (case kcount_outer sz (kcount p) (unat (kcountsize p) div 2) ((sz - 6) div 5) 0 ch1 of
                      (Some e, ch2) \<Rightarrow> (Some e, ch2)
                    | (None, ch2) \<Rightarrow>
                        (case froms_loop sz p (sint (ucast (fromssize p div 2) :: 32 word)) 0 ch2 of
                           (Some e, ch3) \<Rightarrow> (Some e, ch3)
                         | (None, ch3) \<Rightarrow>
                             (case utrace ''footer'' ch3 of
                                None \<Rightarrow> (None, ch3)
                              | Some ch4 \<Rightarrow> (None, ch4))))))"
  unfolding mcleanup_def session_header_def Let_def ..

lemma mcleanup_records:
  assumes m: "5 < KTR_USER_MAXLEN d" "KTR_USER_MAXLEN d mod 5 \<noteq> 0"
    and r: "mcleanup d clk p ch = (e, ch')"
  shows "e \<noteq> Some AssertFailed \<and>
         (\<exists>rs. sent ch' = sent ch @ rs \<and>
            (\<forall>r\<in>set rs. length r \<le> KTR_USER_MAXLEN d \<and>
               (take 6 r = ''kcount'' \<longrightarrow>
                  (\<exists>n. n \<le> (KTR_USER_MAXLEN d + 1 - 6) div 5 \<and> length r = 6 + 5 * n))))"
proof -
  let ?M = "KTR_USER_MAXLEN d"
  let ?sz = "?M + 1"
  let ?sl = "(?sz - 6) div 5"
  let ?P = "\<lambda>r. length r \<le> ?M \<and>
               (take 6 r = ''kcount'' \<longrightarrow> (\<exists>n. n \<le> ?sl \<and> length r = 6 + 5 * n))"
  let ?hdr = "gmonhdr_record (session_header d clk p)"
  have sl: "6 + 5 * ?sl < ?sz"
    using m by presburger
  have Pk: "?P r" if "take 6 r = ''kcount''" "\<exists>n. n \<le> ?sl \<and> length r = 6 + 5 * n" for r
    using that sl by auto
  have Pa: "?P r" if "take 6 r = ''rawarc''" "length r < ?sz" for r
    using that by auto
  show ?thesis
  proof (cases "?sz \<le> length ?hdr \<or> utrace ?hdr ch = None")
    case True
    then have "e = Some GotoOut \<and> ch' = ch"
      using r by (auto simp: mcleanup_unfold Let_def split: option.splits)
    then show ?thesis by simp
  next
    case False
    then obtain ch1 where ch1: "utrace ?hdr ch = Some ch1" and hl: "length ?hdr < ?sz" by auto
    then have s1: "sent ch1 = sent ch @ [?hdr]" by (auto simp: utrace_def split: if_splits)
    have Ph: "?P ?hdr" using hl by (simp add: gmonhdr_record_take6)
    obtain e2 ch2 where k: "kcount_outer ?sz (kcount p) (unat (kcountsize p) div 2) ?sl 0 ch1 = (e2, ch2)"
      by (cases "kcount_outer ?sz (kcount p) (unat (kcountsize p) div 2) ?sl 0 ch1")
    from kcount_outer_records [OF k sl]
    obtain rs2 where rs2: "e2 \<noteq> Some AssertFailed" "sent ch2 = sent ch1 @ rs2"
      "\<forall>r\<in>set rs2. take 6 r = ''kcount'' \<and> (\<exists>n. n \<le> ?sl \<and> length r = 6 + 5 * n)" by blast
    have P2: "\<forall>r\<in>set rs2. ?P r" using rs2(3) Pk by blast
    show ?thesis
    proof (cases e2)
      case (Some x)
      then have "e = e2 \<and> ch' = ch2"
        using r False ch1 k by (auto simp: mcleanup_unfold Let_def)
      moreover have "sent ch2 = sent ch @ (?hdr # rs2)" using s1 rs2 by simp
      moreover have "\<forall>r\<in>set (?hdr # rs2). ?P r" using Ph P2 by simp
      ultimately show ?thesis using rs2(1) by blast
    next
      case None
      obtain e3 ch3 where f: "froms_loop ?sz p (sint (ucast (fromssize p div 2) :: 32 word)) 0 ch2 = (e3, ch3)"
        by (cases "froms_loop ?sz p (sint (ucast (fromssize p div 2) :: 32 word)) 0 ch2")
      from froms_loop_records [OF f]
      obtain rs3 where rs3: "e3 \<noteq> Some AssertFailed" "sent ch3 = sent ch2 @ rs3"
        "\<forall>r\<in>set rs3. take 6 r = ''rawarc'' \<and> length r < ?sz" by blast
      have P3: "\<forall>r\<in>set rs3. ?P r" using rs3(3) Pa by blast
      have s3: "sent ch3 = sent ch @ (?hdr # rs2 @ rs3)" using s1 rs2 rs3 by simp
      have P23: "\<forall>r\<in>set (?hdr # rs2 @ rs3). ?P r" using Ph P2 P3 by auto
      show ?thesis
      proof (cases e3)
        case (Some x)
        then have "e = e3 \<and> ch' = ch3"
          using r False ch1 k None f by (auto simp: mcleanup_unfold Let_def)
        then show ?thesis using s3 P23 rs3(1) by blast
      next
        case n3: None
        show ?thesis
        proof (cases "utrace ''footer'' ch3")
          case None
          then have "e = None \<and> ch' = ch3"
            using r False ch1 k \<open>e2 = None\<close> f n3 by (auto simp: mcleanup_unfold Let_def)
          then show ?thesis using s3 P23 by blast
        next
          case (Some ch4)
          then have s4: "sent ch4 = sent ch3 @ [''footer'']"
            by (auto simp: utrace_def split: if_splits)
          have "e = None \<and> ch' = ch4"
            using r False ch1 k \<open>e2 = None\<close> f n3 Some by (auto simp: mcleanup_unfold Let_def)
          moreover have "sent ch4 = sent ch @ (?hdr # rs2 @ rs3 @ [''footer''])"
            using s3 s4 by simp
          moreover have "?P ''footer''" using m by simp
          then have "\<forall>r\<in>set (?hdr # rs2 @ rs3 @ [''footer'']). ?P r" using P23 by auto
          ultimately show ?thesis by blast
        qed
      qed
    qed
  qed
qed

text \<open>
  C8. The capacity of a record is \<open>(sizeof ubuf - 6) / 5\<close> samples, with
  \<open>sizeof ubuf = KTR_USER_MAXLEN + 1\<close>. Whenever \<^verbatim>\<open>KTR_USER_MAXLEN\<close> is more than 5 and
  no multiple of 5 (as the 2048 of \<^verbatim>\<open>sys/ktrace.h\<close>), no assertion of \<^verbatim>\<open>_mcleanup\<close>
  fails, every record it emits is at most \<^verbatim>\<open>KTR_USER_MAXLEN\<close> bytes long, and a
  \<open>kcount\<close> record is the tag of 6 bytes and 5 bytes for each of at most that many
  samples.
\<close>

theorem kcount_records_bounded:
  assumes "5 < KTR_USER_MAXLEN d" and "KTR_USER_MAXLEN d mod 5 \<noteq> 0"
  shows "fst (mcleanup d clk p ch) \<noteq> Some AssertFailed \<and>
         (\<exists>rs. sent (snd (mcleanup d clk p ch)) = sent ch @ rs \<and>
            (\<forall>r\<in>set rs. length r \<le> KTR_USER_MAXLEN d \<and>
               (take 6 r = ''kcount'' \<longrightarrow>
                  (\<exists>n. n \<le> (KTR_USER_MAXLEN d + 1 - 6) div 5 \<and> length r = 6 + 5 * n))))"
  using mcleanup_records [OF assms, of clk p ch "fst (mcleanup d clk p ch)" "snd (mcleanup d clk p ch)"]
  by simp

theorem kcount_records_bounded_witness:
  "5 < KTR_USER_MAXLEN openbsd \<and> KTR_USER_MAXLEN openbsd mod 5 \<noteq> 0 \<and>
   (KTR_USER_MAXLEN openbsd + 1 - 6) div 5 = 408 \<and> 6 + 5 * 408 \<le> KTR_USER_MAXLEN openbsd \<and>
   fst (mcleanup openbsd (Some (100, 0)) demo_session \<lparr> sent = [], ok_left = 4 \<rparr>)
     \<noteq> Some AssertFailed \<and>
   list_all (\<lambda>r. length r \<le> KTR_USER_MAXLEN openbsd)
     (sent (snd (mcleanup openbsd (Some (100, 0)) demo_session \<lparr> sent = [], ok_left = 4 \<rparr>)))"
proof -
  have m: "5 < KTR_USER_MAXLEN openbsd" "KTR_USER_MAXLEN openbsd mod 5 \<noteq> 0"
    by (simp_all add: openbsd_def)
  have c: "(KTR_USER_MAXLEN openbsd + 1 - 6) div 5 = 408 \<and> 6 + 5 * 408 \<le> KTR_USER_MAXLEN openbsd"
    by (simp add: openbsd_def)
  from kcount_records_bounded [OF m, of "Some (100, 0)" demo_session "\<lparr> sent = [], ok_left = 4 \<rparr>"]
  show ?thesis using m c by (auto simp: list_all_iff)
qed

section \<open>The session that \<^verbatim>\<open>monstartup\<close> opens\<close>

lemma startup_sizes_fields:
  "kcountsize (startup_sizes d lo hi) =
     (ROUNDUP hi (of_nat (HISTFRACTION d * 2)) - ROUNDDOWN lo (of_nat (HISTFRACTION d * 2)))
       div of_nat (HISTFRACTION d)"
  "textsize (startup_sizes d lo hi) =
     ROUNDUP hi (of_nat (HISTFRACTION d * 2)) - ROUNDDOWN lo (of_nat (HISTFRACTION d * 2))"
  "lowpc (startup_sizes d lo hi) = ROUNDDOWN lo (of_nat (HISTFRACTION d * 2))"
  "highpc (startup_sizes d lo hi) = ROUNDUP hi (of_nat (HISTFRACTION d * 2))"
  "fromssize (startup_sizes d lo hi) = textsize (startup_sizes d lo hi) div of_nat (HASHFRACTION d)"
  "hashfraction (startup_sizes d lo hi) = of_nat (HASHFRACTION d)"
  "length (kcount (startup_sizes d lo hi)) = unat (kcountsize (startup_sizes d lo hi)) div 2"
  "length (froms (startup_sizes d lo hi)) = unat (fromssize (startup_sizes d lo hi)) div 2"
  "length (tos (startup_sizes d lo hi)) = unat (tolimit (startup_sizes d lo hi))"
  by (simp_all add: startup_sizes_def Let_def)

lemma startup_tolimit:
  "tolimit (startup_sizes d lo hi) =
     (let tl0 = textsize (startup_sizes d lo hi) * of_nat (ARCDENSITY d) div 100
      in if sint tl0 < int (MINARCS d) then of_nat (MINARCS d)
         else if int (MAXARCS d) < sint tl0 then of_nat (MAXARCS d) else tl0)"
  "tossize (startup_sizes d lo hi) =
     tolimit (startup_sizes d lo hi) * of_nat (sizeof_tostruct d)"
  by (simp_all add: startup_sizes_def Let_def)

lemmas startup_eval =
  startup_sizes_fields startup_tolimit ROUNDUP_def ROUNDDOWN_def openbsd_def Let_def

lemma monstartup_Some:
  assumes "monstartup d mm lo hi = Some (p0, s)"
  shows "p0 = moncontrol True (startup_sizes d lo hi)" and "s = startup_scale (startup_sizes d lo hi)"
    and "kcountsize p0 \<noteq> 0" and "fromssize p0 \<noteq> 0" and "tossize p0 \<noteq> 0"
  using assms by (auto simp: monstartup_def Let_def mmap_def moncontrol_def split: if_splits)

lemma monstartup_always:
  assumes "kcountsize (startup_sizes d lo hi) \<noteq> 0" and "fromssize (startup_sizes d lo hi) \<noteq> 0"
    and "tossize (startup_sizes d lo hi) \<noteq> 0"
  shows "monstartup d mmap_always lo hi =
           Some (moncontrol True (startup_sizes d lo hi), startup_scale (startup_sizes d lo hi))"
  using assms by (simp add: monstartup_def mmap_def mmap_always_def Let_def)

lemma dvd4_word:
  fixes a b :: u_long
  shows "4 dvd unat (a * 4 - b * 4)"
proof -
  have e: "a * 4 - b * 4 = 4 * (a - b)" by (simp add: algebra_simps)
  have "unat (4 * (a - b)) = (unat (4 :: u_long) * unat (a - b)) mod 2 ^ LENGTH(64)"
    by (rule unat_word_ariths)
  then have "unat (a * 4 - b * 4) = (4 * unat (a - b)) mod 2 ^ 64"
    unfolding e by simp
  moreover have "(4::nat) dvd 2 ^ 64" by simp
  ultimately show ?thesis by (simp add: dvd_mod)
qed

lemma textsize_dvd4:
  assumes "HISTFRACTION d = 2"
  shows "4 dvd unat (textsize (startup_sizes d lo hi))"
  using assms dvd4_word by (simp add: startup_sizes_fields ROUNDUP_def ROUNDDOWN_def)

lemma monstartup_kcount_nonempty:
  assumes "monstartup d mm lo hi = Some (p0, s)" and "HISTFRACTION d = 2"
  shows "kcount p0 \<noteq> []"
proof -
  let ?q = "startup_sizes d lo hi"
  have k: "kcountsize ?q = textsize ?q div 2"
    using assms(2) by (simp add: startup_sizes_fields)
  have "kcountsize ?q \<noteq> 0" using monstartup_Some [OF assms(1)] by (simp add: moncontrol_def)
  then have "0 < unat (textsize ?q) div 2" by (simp add: k unat_div unat_gt_0 [symmetric])
  moreover have "4 dvd unat (textsize ?q)" by (rule textsize_dvd4 [OF assms(2)])
  ultimately have "2 \<le> unat (textsize ?q) div 2" by presburger
  then have "0 < length (kcount ?q)" by (simp add: startup_sizes_fields(7) k unat_div)
  then show ?thesis using monstartup_Some(1) [OF assms(1)] by (simp add: moncontrol_def)
qed

lemma word_div_le_self: "(w :: u_long) div k \<le> w"
  by (simp add: word_le_nat_alt unat_div)

lemma sint_ucast_small:
  fixes w :: u_long
  assumes "unat w < 2 ^ 31"
  shows "sint (ucast w :: 32 word) = int (unat w)"
proof -
  have "int (unat w) < int (2 ^ 31)" using assms by (simp only: of_nat_less_iff)
  then have u: "uint w < 2 ^ 31" by simp
  have "0 \<le> uint w" by simp
  then have "- (2 ^ 31) \<le> uint w" by (rule order_trans [rotated]) simp
  then have "signed_take_bit 31 (uint w) = uint w"
    using u by (rule signed_take_bit_int_eq_self)
  moreover have "sint (ucast w :: 32 word) = signed_take_bit (LENGTH(32) - Suc 0) (uint w)"
    by (rule signed_ucast_eq)
  ultimately show ?thesis by simp
qed

section \<open>The record stream of the finalizer\<close>

lemma chunks_concat: "0 < n \<Longrightarrow> concat (chunks n xs) = xs"
proof (induction n xs rule: chunks.induct)
  case (1 n xs)
  then show ?case by (subst chunks.simps) auto
qed

lemma chunks_nonempty: "0 < n \<Longrightarrow> xs \<noteq> [] \<Longrightarrow> chunks n xs \<noteq> []"
  by (subst chunks.simps) simp

lemma chunks_length: "0 < n \<Longrightarrow> \<forall>c\<in>set (chunks n xs). c \<noteq> [] \<and> length c \<le> n"
proof (induction n xs rule: chunks.induct)
  case (1 n xs)
  then show ?case by (subst chunks.simps) auto
qed

lemma utrace_Some:
  "0 < ok_left ch \<Longrightarrow> utrace s ch = Some (ch\<lparr> sent := sent ch @ [s], ok_left := ok_left ch - 1 \<rparr>)"
  by (simp add: utrace_def)

lemma kcount_outer_exact:
  assumes "length kc = stotal" and "0 < slimit" and "6 + 5 * slimit < sz"
    and "i \<le> stotal" and "length (chunks slimit (drop i kc)) \<le> ok_left ch"
  shows "kcount_outer sz kc stotal slimit i ch =
           (None, ch\<lparr> sent := sent ch @ map kcount_record (chunks slimit (drop i kc)),
                       ok_left := ok_left ch - length (chunks slimit (drop i kc)) \<rparr>)"
  using assms
proof (induction "stotal - i" arbitrary: i ch rule: less_induct)
  case less
  show ?case
  proof (cases "i < stotal")
    case False
    then have "drop i kc = []" using less.prems by simp
    then show ?thesis using False
      by (subst kcount_outer.simps) (simp add: chunks.simps)
  next
    case True
    let ?limit = "if stotal - i < slimit then stotal else i + slimit"
    have ne: "drop i kc \<noteq> []" using True less.prems by simp
    have lim: "i < ?limit" "?limit \<le> stotal" "?limit - i \<le> slimit"
      using True less.prems(2) by auto
    have ch: "chunks slimit (drop i kc) = take slimit (drop i kc) # chunks slimit (drop ?limit kc)"
    proof -
      have "drop slimit (drop i kc) = drop ?limit kc"
        using less.prems(1) by (auto simp: add.commute)
      then show ?thesis using ne less.prems(2) by (subst chunks.simps) simp
    qed
    have tk: "take (?limit - i) (drop i kc) = take slimit (drop i kc)"
      using less.prems(1) by auto
    have b: "length ''kcount'' + 5 * (?limit - i) < sz" using lim(3) less.prems(3) by simp
    have inner: "kcount_inner sz kc i ?limit ''kcount'' = Inr (kcount_record (take slimit (drop i kc)))"
      using kcount_inner_exact [OF b, of kc] lim(2) less.prems(1) tk
      by (simp add: kcount_record_def)
    have ok: "0 < ok_left ch" using less.prems(5) ch by simp
    let ?ch1 = "ch\<lparr> sent := sent ch @ [kcount_record (take slimit (drop i kc))],
                     ok_left := ok_left ch - 1 \<rparr>"
    have step: "kcount_outer sz kc stotal slimit i ch = kcount_outer sz kc stotal slimit ?limit ?ch1"
      using True inner utrace_Some [OF ok]
      by (subst kcount_outer.simps) (simp add: Let_def)
    have ih: "kcount_outer sz kc stotal slimit ?limit ?ch1 =
           (None, ?ch1\<lparr> sent := sent ?ch1 @ map kcount_record (chunks slimit (drop ?limit kc)),
                       ok_left := ok_left ?ch1 - length (chunks slimit (drop ?limit kc)) \<rparr>)"
    proof (rule less.hyps)
      show "stotal - ?limit < stotal - i" using lim True by auto
      show "length kc = stotal" "0 < slimit" "6 + 5 * slimit < sz" using less.prems by simp_all
      show "?limit \<le> stotal" using lim by simp
      show "length (chunks slimit (drop ?limit kc)) \<le> ok_left ?ch1"
        using less.prems(5) ch by simp
    qed
    show ?thesis unfolding step ih ch by simp
  qed
qed

lemma chain_out_exact:
  assumes "chain ts n i = Some is" and "length is \<le> ok_left ch" and "57 < sz"
  shows "chain_out sz ts frompc i ch =
           (None, ch\<lparr> sent := sent ch @ map (\<lambda>t. rawarc_record (arc_of ts frompc t)) is,
                       ok_left := ok_left ch - length is \<rparr>)"
  using assms
proof (induction n arbitrary: i "is" ch)
  case 0
  then show ?case by (subst chain_out.simps) (simp split: if_splits)
next
  case (Suc n)
  show ?case
  proof (cases "i = 0")
    case True
    then show ?thesis using Suc.prems by (subst chain_out.simps) simp
  next
    case False
    then have il: "i < length ts" using Suc.prems(1) by (simp split: if_splits)
    then obtain js where js: "chain ts n (unat (link (ts ! i))) = Some js" and "is": "is = i # js"
      using Suc.prems(1) False by auto
    let ?ubuf = "rawarc_record (arc_of ts frompc i)"
    have l: "\<not> sz \<le> length ?ubuf" using rawarc_record_length [of "arc_of ts frompc i"] Suc.prems(3) by simp
    have ok: "0 < ok_left ch" using Suc.prems(2) "is" by simp
    let ?ch1 = "ch\<lparr> sent := sent ch @ [?ubuf], ok_left := ok_left ch - 1 \<rparr>"
    have step: "chain_out sz ts frompc i ch = chain_out sz ts frompc (unat (link (ts ! i))) ?ch1"
      using False il l utrace_Some [OF ok, of ?ubuf]
      by (subst chain_out.simps) (simp add: Let_def arc_of_def)
    have "length js \<le> ok_left ?ch1" using Suc.prems(2) "is" by simp
    from Suc.IH [OF js this Suc.prems(3)]
    show ?thesis unfolding step "is" by simp
  qed
qed

lemma slot_records_length:
  "chain (tos p) (length (tos p)) (unat (froms p ! i)) = Some ts \<Longrightarrow>
   length (slot_records p i) = length ts"
  by (simp add: slot_records_def)

lemma froms_loop_exact:
  assumes "int n = endfrom" and "n = length (froms p)" and "chains_ok p" and "57 < sz"
    and "k \<le> n" and "length (concat (map (slot_records p) [k..<n])) \<le> ok_left ch"
  shows "froms_loop sz p endfrom k ch =
           (None, ch\<lparr> sent := sent ch @ concat (map (slot_records p) [k..<n]),
                       ok_left := ok_left ch - length (concat (map (slot_records p) [k..<n])) \<rparr>)"
  using assms
proof (induction "n - k" arbitrary: k ch rule: less_induct)
  case less
  show ?case
  proof (cases "k < n")
    case False
    then show ?thesis using less.prems by (subst froms_loop.simps) simp
  next
    case True
    then have kl: "k < length (froms p)" "int k < endfrom" using less.prems by auto
    obtain ts where ts: "chain (tos p) (length (tos p)) (unat (froms p ! k)) = Some ts"
      using less.prems(3) kl by (auto simp: chains_ok_def)
    have up: "[k..<n] = k # [k + 1..<n]" using True by (simp add: upt_conv_Cons)
    have sr: "slot_records p k = map (\<lambda>t. rawarc_record (arc_of (tos p) (slot_frompc p k) t)) ts"
      using ts by (simp add: slot_records_def)
    have budget: "length ts + length (concat (map (slot_records p) [k + 1..<n])) \<le> ok_left ch"
      using less.prems(6) up sr by simp
    show ?thesis
    proof (cases "froms p ! k = 0")
      case z: True
      then have "ts = []" using ts by (cases "length (tos p)") auto
      then have e: "slot_records p k = []" using sr by simp
      have step: "froms_loop sz p endfrom k ch = froms_loop sz p endfrom (k + 1) ch"
        using kl z by (subst froms_loop.simps) simp
      have "froms_loop sz p endfrom (k + 1) ch =
           (None, ch\<lparr> sent := sent ch @ concat (map (slot_records p) [k + 1..<n]),
                       ok_left := ok_left ch - length (concat (map (slot_records p) [k + 1..<n])) \<rparr>)"
        using less.prems True budget by (intro less.hyps) auto
      then show ?thesis unfolding step up using e by simp
    next
      case nz: False
      let ?ch1 = "ch\<lparr> sent := sent ch @ slot_records p k, ok_left := ok_left ch - length ts \<rparr>"
      have c: "chain_out sz (tos p) (lowpc p + of_nat k * hashfraction p * 2) (unat (froms p ! k)) ch
                 = (None, ?ch1)"
        using chain_out_exact [OF ts _ less.prems(4), of ch "slot_frompc p k"] budget sr
        by (simp add: slot_frompc_def)
      have step: "froms_loop sz p endfrom k ch = froms_loop sz p endfrom (k + 1) ?ch1"
        using kl nz c by (subst froms_loop.simps) (simp add: Let_def)
      have "froms_loop sz p endfrom (k + 1) ?ch1 =
           (None, ?ch1\<lparr> sent := sent ?ch1 @ concat (map (slot_records p) [k + 1..<n]),
                       ok_left := ok_left ?ch1 - length (concat (map (slot_records p) [k + 1..<n])) \<rparr>)"
        using less.prems True budget by (intro less.hyps) auto
      then show ?thesis unfolding step up using sr by simp
    qed
  qed
qed

lemma mcleanup_exact:
  assumes kc: "length (kcount p) = unat (kcountsize p) div 2"
    and fr: "length (froms p) = unat (fromssize p) div 2" "length (froms p) < 2 ^ 31"
    and ch: "chains_ok p"
    and m: "68 \<le> KTR_USER_MAXLEN d" "KTR_USER_MAXLEN d mod 5 \<noteq> 0"
    and ok: "length (session_records d clk p) \<le> ok_left ch"
  shows "mcleanup d clk p ch =
           (None, ch\<lparr> sent := sent ch @ session_records d clk p,
                       ok_left := ok_left ch - length (session_records d clk p) \<rparr>)"
proof -
  let ?sz = "KTR_USER_MAXLEN d + 1"
  let ?sl = "(?sz - 6) div 5"
  let ?hdr = "gmonhdr_record (session_header d clk p)"
  let ?ks = "map kcount_record (chunks ?sl (kcount p))"
  let ?as = "concat (map (slot_records p) [0..<length (froms p)])"
  have sl: "6 + 5 * ?sl < ?sz" "0 < ?sl" using m by presburger+
  have hl: "\<not> ?sz \<le> length ?hdr"
    using gmonhdr_record_length [of "session_header d clk p"] m by simp
  have n: "length (session_records d clk p) = 1 + length ?ks + length ?as + 1"
    by (simp add: session_records_def)
  have b1: "0 < ok_left ch" using ok n by simp
  let ?ch1 = "ch\<lparr> sent := sent ch @ [?hdr], ok_left := ok_left ch - 1 \<rparr>"
  have u1: "utrace ?hdr ch = Some ?ch1" using b1 by (rule utrace_Some)
  let ?ch2 = "?ch1\<lparr> sent := sent ?ch1 @ ?ks, ok_left := ok_left ?ch1 - length ?ks \<rparr>"
  have b2: "length (chunks ?sl (drop 0 (kcount p))) \<le> ok_left ?ch1" using ok n by simp
  have k: "kcount_outer ?sz (kcount p) (unat (kcountsize p) div 2) ?sl 0 ?ch1 = (None, ?ch2)"
    using kcount_outer_exact [OF kc sl(2) sl(1) _ b2] by simp
  let ?ch3 = "?ch2\<lparr> sent := sent ?ch2 @ ?as, ok_left := ok_left ?ch2 - length ?as \<rparr>"
  have ef: "int (length (froms p)) = sint (ucast (fromssize p div 2) :: 32 word)"
    using sint_ucast_small [of "fromssize p div 2"] fr by (simp add: unat_div)
  have b3: "length ?as \<le> ok_left ?ch2" using ok n by simp
  have m57: "57 < ?sz" using m by simp
  have f: "froms_loop ?sz p (sint (ucast (fromssize p div 2) :: 32 word)) 0 ?ch2 = (None, ?ch3)"
    by (rule froms_loop_exact [OF ef refl ch m57 _ b3]) simp
  let ?ch4 = "?ch3\<lparr> sent := sent ?ch3 @ [''footer''], ok_left := ok_left ?ch3 - 1 \<rparr>"
  have b4: "0 < ok_left ?ch3" using ok n by simp
  have u4: "utrace ''footer'' ?ch3 = Some ?ch4" using b4 by (rule utrace_Some)
  have "mcleanup d clk p ch = (None, ?ch4)"
    unfolding mcleanup_unfold Let_def using hl u1 k f u4 by simp
  moreover have "?ch4 = ch\<lparr> sent := sent ch @ session_records d clk p,
                       ok_left := ok_left ch - length (session_records d clk p) \<rparr>"
    using n by (simp add: session_records_def)
  ultimately show ?thesis by simp
qed

lemma demo_startup:
  "monstartup openbsd mmap_always 0x1000 0x1008 =
     Some (moncontrol True (startup_sizes openbsd 0x1000 0x1008),
           startup_scale (startup_sizes openbsd 0x1000 0x1008))"
  by (rule monstartup_always) (simp_all add: startup_eval)

lemma demo_fields:
  "kcount demo_session = [1, 0xabc]" "froms demo_session = [0, 1]"
  "lowpc demo_session = 0x1000" "highpc demo_session = 0x1008"
  "kcountsize demo_session = 4" "fromssize demo_session = 4" "hashfraction demo_session = 2"
  "length (tos demo_session) = 50"
  "tos demo_session ! 1 = \<lparr> selfpc = 0x1100, count = 3, link = 0 \<rparr>"
  by (simp_all add: demo_session_def moncontrol_def startup_eval startup_sizes_def)

lemma chain_numeral:
  "chain ts (numeral k) i =
     (if i = 0 then Some []
      else if i < length ts
        then map_option ((#) i) (chain ts (pred_numeral k) (unat (link (ts ! i))))
      else None)"
  by (simp add: numeral_eq_Suc)

lemma demo_chain0: "chain ts n 0 = Some []"
  by (cases n) simp_all

lemma demo_chain: "chain (tos demo_session) (length (tos demo_session)) (Suc 0) = Some [Suc 0]"
  using demo_fields(9) by (simp add: demo_fields(8) chain_numeral demo_chain0)

lemma demo_chains_ok: "chains_ok demo_session"
  by (simp add: chains_ok_def demo_fields(2) less_Suc_eq demo_chain demo_chain0 eval_nat_numeral)

lemma demo_session_of:
  "session_of (moncontrol True (startup_sizes openbsd 0x1000 0x1008)) demo_session"
  unfolding session_of_def demo_session_def
  by (rule exI [of _ GMON_PROF_ON], rule exI [of _ "[1, 0xabc]"], rule exI [of _ "[0, 1]"],
      rule exI [of _ "(tos (startup_sizes openbsd 0x1000 0x1008))
                  [1 := \<lparr> selfpc = 0x1100, count = 3, link = 0 \<rparr>]"])
     (simp add: moncontrol_def startup_eval)

lemma demo_records:
  "session_records openbsd (Some (100, 0)) demo_session =
     [''gmonhdr 1000 1008 2c 30af2 64'', ''kcount 0001 0abc'', ''rawarc 1004 1100 3'', ''footer'']"
proof -
  have h: "gmonhdr_record (session_header openbsd (Some (100, 0)) demo_session)
             = ''gmonhdr 1000 1008 2c 30af2 64''"
    by (simp add: gmonhdr_record_def session_header_def demo_fields openbsd_def hex_eval)
  have c: "chunks ((KTR_USER_MAXLEN openbsd + 1 - 6) div 5) (kcount demo_session) = [[1, 0xabc]]"
    by (simp add: demo_fields openbsd_def chunks.simps)
  have k: "kcount_record [1, 0xabc] = ''kcount 0001 0abc''"
    by (simp add: kcount_record_def hex04_def hex_eval replicate3)
  have s0: "slot_records demo_session 0 = []"
    by (simp add: slot_records_def demo_fields(2) demo_chain0)
  have t1: "tos demo_session ! Suc 0 = \<lparr> selfpc = 0x1100, count = 3, link = 0 \<rparr>"
    using demo_fields(9) by simp
  have s1: "slot_records demo_session (Suc 0) = [''rawarc 1004 1100 3'']"
    by (simp add: t1 slot_records_def demo_fields(2) demo_chain arc_of_def slot_frompc_def
        rawarc_record_def demo_fields(3,7,9) hex_eval)
  have u: "[0..<length (froms demo_session)] = [0, 1]"
    by (simp add: demo_fields(2) upt_rec)
  show ?thesis unfolding session_records_def h c u by (simp add: k s0 s1)
qed

text \<open>
  The record stream while the from-table has fewer than \<open>2\<^sup>3\<^sup>1\<close> slots, the range of
  the \<^verbatim>\<open>int\<close> that indexes it. For a session that \<^verbatim>\<open>monstartup\<close> opened (with the
  \<^verbatim>\<open>HISTFRACTION\<close> 2 of \<^verbatim>\<open>sys/gmon.h\<close>), in any later state whose arc chains end
  inside the pool, and when no write to the trace channel fails, \<^verbatim>\<open>_mcleanup\<close> emits
  exactly: the header record; then the \<open>kcount\<close> records, at least one, which hold all
  samples in the order of the array; then for each slot of the from-table in ascending
  order the \<open>rawarc\<close> records of its chain, in the order of the links, with the caller
  address \<open>low_pc + slot * hash_fraction * 2\<close>; then the footer. The buffer of
  \<^verbatim>\<open>KTR_USER_MAXLEN + 1\<close> bytes must hold the longest header (68 bytes) and a full
  \<open>kcount\<close> record.
\<close>

theorem record_stream_shape:
  assumes "monstartup d mm lo hi = Some (p0, s)" and "HISTFRACTION d = 2"
    and "session_of p0 p" and "chains_ok p" and "length (froms p) < 2 ^ 31"
    and "68 \<le> KTR_USER_MAXLEN d" and "KTR_USER_MAXLEN d mod 5 \<noteq> 0"
    and "length (session_records d clk p) \<le> ok_left ch"
  shows "mcleanup d clk p ch =
           (None, ch\<lparr> sent := sent ch @ session_records d clk p,
                       ok_left := ok_left ch - length (session_records d clk p) \<rparr>) \<and>
         chunks ((KTR_USER_MAXLEN d + 1 - 6) div 5) (kcount p) \<noteq> [] \<and>
         concat (chunks ((KTR_USER_MAXLEN d + 1 - 6) div 5) (kcount p)) = kcount p"
proof -
  let ?q = "startup_sizes d lo hi"
  from assms(3) obtain st kc fr ts where
    p: "p = p0\<lparr> prof_state := st, kcount := kc, froms := fr, tos := ts \<rparr>"
    and l: "length kc = length (kcount p0)" "length fr = length (froms p0)"
    by (auto simp: session_of_def)
  have p0: "p0 = moncontrol True ?q" by (rule monstartup_Some(1) [OF assms(1)])
  have kc: "length (kcount p) = unat (kcountsize p) div 2"
    using p l p0 by (simp add: moncontrol_def startup_sizes_fields)
  have fr: "length (froms p) = unat (fromssize p) div 2"
    using p l p0 by (simp add: moncontrol_def startup_sizes_fields(8))
  have ne: "kcount p \<noteq> []"
    using monstartup_kcount_nonempty [OF assms(1,2)] p l by auto
  have sl: "0 < (KTR_USER_MAXLEN d + 1 - 6) div 5" using assms(6) by presburger
  show ?thesis
    using mcleanup_exact [OF kc fr assms(5) assms(4) assms(6,7,8)]
      chunks_nonempty [OF sl ne] chunks_concat [OF sl] by simp
qed

theorem record_stream_shape_witness:
  "mcleanup openbsd (Some (100, 0)) demo_session \<lparr> sent = [], ok_left = 4 \<rparr> =
     (None, \<lparr> sent = [''gmonhdr 1000 1008 2c 30af2 64'', ''kcount 0001 0abc'',
                       ''rawarc 1004 1100 3'', ''footer''], ok_left = 0 \<rparr>)"
proof -
  have h: "HISTFRACTION openbsd = 2" by (simp add: openbsd_def)
  have f: "length (froms demo_session) < 2 ^ 31" by (simp add: demo_fields)
  have m: "68 \<le> KTR_USER_MAXLEN openbsd" "KTR_USER_MAXLEN openbsd mod 5 \<noteq> 0"
    by (simp_all add: openbsd_def)
  have b: "length (session_records openbsd (Some (100, 0)) demo_session)
             \<le> ok_left \<lparr> sent = [], ok_left = 4 \<rparr>"
    by (simp add: demo_records)
  from record_stream_shape [OF demo_startup h demo_session_of demo_chains_ok f m b]
  show ?thesis by (simp add: demo_records)
qed

subsection \<open>A from-table of \<open>2\<^sup>3\<^sup>1\<close> slots\<close>

lemma chunks_length_le: "0 < n \<Longrightarrow> length (chunks n xs) \<le> length xs"
proof (induction n xs rule: chunks.induct)
  case (1 n xs)
  show ?case
  proof (cases "xs = []")
    case True
    then show ?thesis by (subst chunks.simps) simp
  next
    case False
    then have a: "length (chunks n (drop n xs)) \<le> length xs - n" using 1 by simp
    have b: "0 < length xs" using False by simp
    have c: "chunks n xs = take n xs # chunks n (drop n xs)"
      using False "1.prems" by (subst chunks.simps) simp
    have "Suc (length (chunks n (drop n xs))) \<le> length xs" using a b "1.prems" by arith
    then show ?thesis unfolding c by simp
  qed
qed

lemma froms_loop_nothing: "endfrom \<le> 0 \<Longrightarrow> froms_loop sz p endfrom 0 ch = (None, ch)"
  by (subst froms_loop.simps) simp

lemma mcleanup_no_arcs:
  assumes kc: "length (kcount p) = unat (kcountsize p) div 2"
    and ef: "sint (ucast (fromssize p div 2) :: 32 word) \<le> 0"
    and m: "68 \<le> KTR_USER_MAXLEN d" "KTR_USER_MAXLEN d mod 5 \<noteq> 0"
    and ok: "length (kcount p) + 2 \<le> ok_left ch"
  shows "mcleanup d clk p ch =
           (None, ch\<lparr> sent := sent ch @ gmonhdr_record (session_header d clk p) #
                         map kcount_record (chunks ((KTR_USER_MAXLEN d + 1 - 6) div 5) (kcount p)) @
                         [''footer''],
                       ok_left := ok_left ch -
                         (length (chunks ((KTR_USER_MAXLEN d + 1 - 6) div 5) (kcount p)) + 2) \<rparr>)"
proof -
  let ?sz = "KTR_USER_MAXLEN d + 1"
  let ?sl = "(?sz - 6) div 5"
  let ?hdr = "gmonhdr_record (session_header d clk p)"
  let ?ks = "map kcount_record (chunks ?sl (kcount p))"
  have sl: "6 + 5 * ?sl < ?sz" "0 < ?sl" using m by presburger+
  have hl: "\<not> ?sz \<le> length ?hdr"
    using gmonhdr_record_length [of "session_header d clk p"] m by simp
  have n: "length ?ks + 2 \<le> ok_left ch"
    using chunks_length_le [OF sl(2), of "kcount p"] ok by simp
  have b1: "0 < ok_left ch" using n by simp
  let ?ch1 = "ch\<lparr> sent := sent ch @ [?hdr], ok_left := ok_left ch - 1 \<rparr>"
  have u1: "utrace ?hdr ch = Some ?ch1" using b1 by (rule utrace_Some)
  let ?ch2 = "?ch1\<lparr> sent := sent ?ch1 @ ?ks, ok_left := ok_left ?ch1 - length ?ks \<rparr>"
  have b2: "length (chunks ?sl (drop 0 (kcount p))) \<le> ok_left ?ch1" using n by simp
  have k: "kcount_outer ?sz (kcount p) (unat (kcountsize p) div 2) ?sl 0 ?ch1 = (None, ?ch2)"
    using kcount_outer_exact [OF kc sl(2) sl(1) _ b2] by simp
  have f: "froms_loop ?sz p (sint (ucast (fromssize p div 2) :: 32 word)) 0 ?ch2 = (None, ?ch2)"
    using ef by (rule froms_loop_nothing)
  let ?ch4 = "?ch2\<lparr> sent := sent ?ch2 @ [''footer''], ok_left := ok_left ?ch2 - 1 \<rparr>"
  have b4: "0 < ok_left ?ch2" using n by simp
  have u4: "utrace ''footer'' ?ch2 = Some ?ch4" using b4 by (rule utrace_Some)
  have "mcleanup d clk p ch = (None, ?ch4)"
    unfolding mcleanup_unfold Let_def using hl u1 k f u4 by simp
  moreover have "?ch4 = ch\<lparr> sent := sent ch @ ?hdr # ?ks @ [''footer''],
                       ok_left := ok_left ch - (length (chunks ?sl (kcount p)) + 2) \<rparr>"
    by simp
  ultimately show ?thesis by simp
qed

lemma big_startup:
  "monstartup openbsd mmap_always 0 0x200000000 =
     Some (moncontrol True (startup_sizes openbsd 0 0x200000000), 65536)"
proof -
  let ?q = "startup_sizes openbsd 0 0x200000000"
  have k: "kcountsize ?q = 0x100000000" by (simp add: startup_eval)
  have f: "fromssize ?q = 0x100000000" by (simp add: startup_eval)
  have t: "tossize ?q = 1572816" by (simp add: startup_eval)
  have hl: "highpc ?q - lowpc ?q = 0x200000000" by (simp add: startup_eval)
  have o: "sint (ucast (0x200000000 :: u_long) :: 32 word) = 0" by simp
  have "startup_scale ?q = 65536"
    unfolding startup_scale_def Let_def hl o k by simp
  moreover have "kcountsize ?q \<noteq> 0" "fromssize ?q \<noteq> 0" "tossize ?q \<noteq> 0"
    by (simp_all add: k f t)
  ultimately show ?thesis by (simp add: monstartup_always)
qed

lemma big_fields:
  "lowpc big_session = 0" "highpc big_session = 0x200000000"
  "kcountsize big_session = 0x100000000" "fromssize big_session = 0x100000000"
  "hashfraction big_session = 2"
  "length (kcount big_session) = 0x80000000" "length (froms big_session) = 0x80000000"
  "length (tos big_session) = 65534"
  by (simp_all add: big_session_def moncontrol_def startup_eval)

lemma big_contents:
  "froms big_session ! 0 = 1"
  "tos big_session ! 1 = \<lparr> selfpc = 0x1100, count = 3, link = 0 \<rparr>"
proof -
  have "0 < length (froms (startup_sizes openbsd 0 0x200000000))" by (simp add: startup_eval)
  then show "froms big_session ! 0 = 1" by (simp add: big_session_def)
  have "1 < length (tos (startup_sizes openbsd 0 0x200000000))" by (simp add: startup_eval)
  then show "tos big_session ! 1 = \<lparr> selfpc = 0x1100, count = 3, link = 0 \<rparr>"
    by (simp add: big_session_def)
qed

lemma big_slot: "slot_records big_session 0 = [''rawarc 0 1100 3'']"
proof -
  have t1: "tos big_session ! Suc 0 = \<lparr> selfpc = 0x1100, count = 3, link = 0 \<rparr>"
    using big_contents(2) by simp
  have c: "chain (tos big_session) (length (tos big_session)) (Suc 0) = Some [Suc 0]"
    by (simp add: big_fields(8) chain_numeral demo_chain0 t1)
  have h0: "hex 0 = ''0''" by (simp add: hex.simps hexchar_def)
  show ?thesis
    by (simp add: slot_records_def big_contents(1) c arc_of_def slot_frompc_def t1
        rawarc_record_def big_fields(1,5) hex_eval h0)
qed

lemma big_header:
  "gmonhdr_record (session_header openbsd (Some (100, 0)) big_session) =
     ''gmonhdr 0 200000000 28 30af2 64''"
proof -
  have h: "hex 0 = ''0''" "hex 0x200000000 = ''200000000''" "hex 40 = ''28''"
    by (simp_all add: hex.simps hexchar_def)
  show ?thesis
    by (simp add: gmonhdr_record_def session_header_def big_fields openbsd_def hex_eval h)
qed

lemma big_endfrom:
  "sint (ucast (fromssize big_session div 2) :: 32 word) = - 2147483648"
  by (simp add: big_fields)

lemma big_mcleanup:
  "mcleanup openbsd (Some (100, 0)) big_session \<lparr> sent = [], ok_left = 0x80000002 \<rparr> =
     (None, \<lparr> sent = ''gmonhdr 0 200000000 28 30af2 64'' #
                      map kcount_record (chunks 408 (kcount big_session)) @ [''footer''],
              ok_left = 0x80000002 - (length (chunks 408 (kcount big_session)) + 2) \<rparr>)"
proof -
  have kc: "length (kcount big_session) = unat (kcountsize big_session) div 2"
    by (simp add: big_fields)
  have ef: "sint (ucast (fromssize big_session div 2) :: 32 word) \<le> 0"
    by (simp add: big_endfrom)
  have m: "68 \<le> KTR_USER_MAXLEN openbsd" "KTR_USER_MAXLEN openbsd mod 5 \<noteq> 0"
    by (simp_all add: openbsd_def)
  have ok: "length (kcount big_session) + 2 \<le> ok_left \<lparr> sent = [], ok_left = 0x80000002 \<rparr>"
    by (simp add: big_fields(6))
  have sl: "(KTR_USER_MAXLEN openbsd + 1 - 6) div 5 = 408" by (simp add: openbsd_def)
  show ?thesis
    using mcleanup_no_arcs [OF kc ef m ok, of "Some (100, 0)"] unfolding sl big_header by simp
qed

text \<open>
  C4. The claim is that for every session opened with \<open>low_pc < high_pc\<close>, when no
  write to the trace channel fails, the finalizer emits the header record, the
  \<open>kcount\<close> records, one \<open>rawarc\<close> record for each arc reachable from a slot of the
  from-table, and the footer. The code keeps the number of slots in \<^verbatim>\<open>int endfrom\<close>.
  For the text \<open>0 .. 0x200000000\<close>, which \<^verbatim>\<open>monstartup\<close> opens, the from-table has
  \<open>2\<^sup>3\<^sup>1\<close> slots; \<^verbatim>\<open>p->fromssize / sizeof(*p->froms)\<close> narrowed to \<^verbatim>\<open>int\<close> is
  \<open>-2\<^sup>3\<^sup>1\<close>, the loop over the slots is not entered, and the arc held in slot 0, whose
  record would be \<open>rawarc 0 1100 3\<close>, is not emitted: the stream is the header, the
  \<open>kcount\<close> records and the footer, and no record in it has the tag \<open>rawarc\<close>.
\<close>

theorem rawarc_records_lost:
  "map_option fst (monstartup openbsd mmap_always 0 0x200000000) =
     Some (moncontrol True (startup_sizes openbsd 0 0x200000000)) \<and>
   fromssize big_session = 0x100000000 \<and>
   sint (ucast (fromssize big_session div 2) :: 32 word) = - 2147483648 \<and>
   froms big_session ! 0 = 1 \<and>
   tos big_session ! 1 = \<lparr> selfpc = 0x1100, count = 3, link = 0 \<rparr> \<and>
   slot_records big_session 0 = [''rawarc 0 1100 3''] \<and>
   mcleanup openbsd (Some (100, 0)) big_session \<lparr> sent = [], ok_left = 0x80000002 \<rparr> =
     (None, \<lparr> sent = ''gmonhdr 0 200000000 28 30af2 64'' #
                      map kcount_record (chunks 408 (kcount big_session)) @ [''footer''],
              ok_left = 0x80000002 - (length (chunks 408 (kcount big_session)) + 2) \<rparr>) \<and>
   list_all (\<lambda>r. take 6 r \<noteq> ''rawarc'')
     (sent (snd (mcleanup openbsd (Some (100, 0)) big_session
                   \<lparr> sent = [], ok_left = 0x80000002 \<rparr>)))"
proof -
  have "list_all (\<lambda>r. take 6 r \<noteq> ''rawarc'')
          (map kcount_record (chunks 408 (kcount big_session)))"
    by (simp add: list_all_iff kcount_record_take6)
  then have "list_all (\<lambda>r. take 6 r \<noteq> ''rawarc'')
     (sent (snd (mcleanup openbsd (Some (100, 0)) big_session
                   \<lparr> sent = [], ok_left = 0x80000002 \<rparr>)))"
    unfolding big_mcleanup by simp
  then show ?thesis
    using big_startup big_fields(4) big_endfrom big_contents big_slot big_mcleanup
    by simp
qed

section \<open>The scale\<close>

lemma pow2_powi: "pow2 e = 2 powi e"
  by (simp add: pow2_def power_int_def inverse_eq_divide power_one_over)

lemma pow2_pos: "0 < pow2 e"
  by (simp add: pow2_powi zero_less_power_int)

lemma pow2_Suc: "pow2 (e + 1) = 2 * pow2 e"
  by (simp add: pow2_powi power_int_add)

lemma ilog2_double: "0 < x \<Longrightarrow> ilog2 (2 * x) = ilog2 x + 1"
proof (cases "x < 1")
  case True
  assume "0 < x"
  then show ?thesis using True by (subst (2) ilog2.simps) simp
next
  case False
  assume "0 < x"
  then show ?thesis using False by (subst ilog2.simps) simp
qed

lemma ilog2_lower: "0 < x \<Longrightarrow> pow2 (ilog2 x) \<le> x"
proof (induction x rule: ilog2.induct)
  case (1 x)
  show ?case
  proof (cases "x < 1")
    case True
    have "pow2 (ilog2 (2 * x)) \<le> 2 * x" using "1.IH"(1) "1.prems" True by simp
    moreover have "pow2 (ilog2 (2 * x)) = 2 * pow2 (ilog2 (2 * x) - 1)"
      using pow2_Suc [of "ilog2 (2 * x) - 1"] by simp
    moreover have "ilog2 x = ilog2 (2 * x) - 1"
      using "1.prems" True by (subst ilog2.simps) simp
    ultimately show ?thesis by simp
  next
    case False
    show ?thesis
    proof (cases "2 \<le> x")
      case True
      have "pow2 (ilog2 (x / 2)) \<le> x / 2" using "1.IH"(2) "1.prems" False True by simp
      moreover have "ilog2 x = ilog2 (x / 2) + 1"
        using "1.prems" False True by (subst ilog2.simps) simp
      ultimately show ?thesis by (simp add: pow2_Suc)
    next
      case nt: False
      then have "ilog2 x = 0" using "1.prems" False by (subst ilog2.simps) simp
      then show ?thesis using False by (simp add: pow2_def)
    qed
  qed
qed

lemma round_even_ge_floor: "\<lfloor>q\<rfloor> \<le> round_even q"
  by (simp add: round_even_def Let_def)

lemma f32_double: "0 < x \<Longrightarrow> f32 (2 * x) = 2 * f32 x"
proof -
  assume x: "0 < x"
  have e: "ilog2 (2 * x) - 23 = (ilog2 x - 23) + 1" using x ilog2_double [of x] by simp
  have u: "pow2 (ilog2 (2 * x) - 23) = 2 * pow2 (ilog2 x - 23)"
    unfolding e by (rule pow2_Suc)
  have p: "pow2 (ilog2 x - 23) \<noteq> 0" using pow2_pos [of "ilog2 x - 23"] by simp
  show ?thesis using x p by (simp add: f32_def Let_def u)
qed

lemma f32_pos: "0 < x \<Longrightarrow> 0 < f32 x"
proof -
  assume x: "0 < x"
  let ?u = "pow2 (ilog2 x - 23)"
  have up: "0 < ?u" by (rule pow2_pos)
  have "(2::rat) powi ((ilog2 x - 23) + 23) = 2 powi (ilog2 x - 23) * 2 powi 23"
    by (rule power_int_add) simp
  then have "pow2 (ilog2 x) = ?u * pow2 23" by (simp add: pow2_powi)
  then have "?u * pow2 23 \<le> x" using ilog2_lower [OF x] by simp
  then have "pow2 23 \<le> x / ?u" using up by (simp add: pos_le_divide_eq mult.commute)
  moreover have "(1::rat) \<le> pow2 23" by (simp add: pow2_def)
  ultimately have "1 \<le> x / ?u" by (rule order_trans [rotated])
  then have "1 \<le> \<lfloor>x / ?u\<rfloor>" by simp
  then have "0 < round_even (x / ?u)" using round_even_ge_floor [of "x / ?u"] by linarith
  then show ?thesis using x up by (simp add: f32_def Let_def)
qed

lemma f32_half: "f32 (1 / 2) = 1 / 2"
  by code_simp

lemma f32_65536: "f32 65536 = 65536"
  by code_simp

lemma f32_32768: "f32 32768 = 32768"
  by code_simp

lemma scale_float_half:
  assumes "ks \<noteq> 0" and "o_int = 2 * uint ks"
  shows "scale_float ks o_int = 32768"
proof -
  let ?k = "of_int (uint ks) :: rat"
  have "uint ks \<noteq> 0" using assms(1) by (simp add: uint_0_iff)
  moreover have "0 \<le> uint ks" by simp
  ultimately have "0 < uint ks" by linarith
  then have k: "0 < ?k" by (simp only: of_int_0_less_iff)
  have fk: "0 < f32 ?k" using k by (rule f32_pos)
  have "f32 (of_int o_int) = 2 * f32 ?k" using f32_double [OF k] assms(2) by simp
  then have "f32 ?k / f32 (of_int o_int) = 1 / 2" using fk by simp
  moreover have "o_int \<noteq> 0" using \<open>0 < uint ks\<close> assms(2) by simp
  ultimately show ?thesis
    by (simp add: scale_float_def float_to_int_def f32_half f32_65536 f32_32768 trunc_def)
qed

lemma startup_scale_value:
  assumes h: "HISTFRACTION d = 2" and t: "unat (textsize (startup_sizes d lo hi)) < 2 ^ 31"
    and k: "kcountsize (startup_sizes d lo hi) \<noteq> 0"
  shows "startup_scale (startup_sizes d lo hi) = 32768"
    and "kcountsize (startup_sizes d lo hi) < textsize (startup_sizes d lo hi)"
proof -
  let ?q = "startup_sizes d lo hi"
  let ?T = "unat (textsize ?q)"
  have ts: "highpc ?q - lowpc ?q = textsize ?q" by (simp add: startup_sizes_fields)
  have ks: "kcountsize ?q = textsize ?q div 2" using h by (simp add: startup_sizes_fields)
  have d4: "4 dvd ?T" by (rule textsize_dvd4 [OF h])
  have uk: "unat (kcountsize ?q) = ?T div 2" by (simp add: ks unat_div)
  have kpos: "0 < ?T div 2" using k uk by (simp add: unat_gt_0 [symmetric])
  have o: "sint (ucast (highpc ?q - lowpc ?q) :: 32 word) = int ?T"
    unfolding ts using t by (rule sint_ucast_small)
  have two: "int ?T = 2 * uint (kcountsize ?q)"
  proof -
    have "uint (kcountsize ?q) = int (?T div 2)" unfolding uk [symmetric] by (rule uint_nat)
    moreover have "2 * (?T div 2) = ?T" using d4 by presburger
    ultimately show ?thesis by (metis of_nat_mult of_nat_numeral)
  qed
  have wb: "(of_int (int ?T) :: u_long) = textsize ?q" by simp
  show lt: "kcountsize ?q < textsize ?q"
    using kpos by (simp add: word_less_nat_alt uk)
  show "startup_scale ?q = 32768"
    unfolding startup_scale_def Let_def o wb
    using lt scale_float_half [OF k two] by simp
qed

lemma scale_staged_half:
  assumes "0 < K" and "2 * K < 2 ^ 31"
  shows "scale_staged (2 * K) K = 32768"
proof -
  have q: "(2 * K) div K = 2" using assms(1) by simp
  show ?thesis
  proof (cases "0x800000 \<le> 2 * K")
    case True
    let ?a = "K div 2 ^ 8"
    have a: "16384 \<le> ?a" using True by simp
    have "K < 256 * ?a + 256" using div_mult_mod_eq [of K 256] mod_less_divisor [of 256 K] by simp
    then have lt: "2 * K < ?a * Suc 512" using a by simp
    have le: "?a * 512 \<le> 2 * K" by simp
    have "(2 * K) div ?a = 512" by (rule div_nat_eqI [OF le lt])
    then show ?thesis using True by (simp add: scale_staged_def q)
  next
    case False
    have "(2 * K * 2 ^ 8) div K = 512" using assms(1) by simp
    then show ?thesis using False by (simp add: scale_staged_def q)
  qed
qed

lemma giant_startup:
  "monstartup openbsd mmap_always 0 0x80000000 =
     Some (moncontrol True (startup_sizes openbsd 0 0x80000000), - 32768)"
proof -
  let ?q = "startup_sizes openbsd 0 0x80000000"
  have k: "kcountsize ?q = 0x40000000" by (simp add: startup_eval)
  have f: "fromssize ?q = 0x40000000" by (simp add: startup_eval)
  have t: "tossize ?q = 1572816" by (simp add: startup_eval)
  have hl: "highpc ?q - lowpc ?q = 0x80000000" by (simp add: startup_eval)
  have o: "sint (ucast (0x80000000 :: u_long) :: 32 word) = - 2147483648" by simp
  have sf: "scale_float 0x40000000 (- 2147483648) = - 32768" by code_simp
  have "startup_scale ?q = - 32768"
    unfolding startup_scale_def Let_def hl o k using sf by simp
  moreover have "kcountsize ?q \<noteq> 0" "fromssize ?q \<noteq> 0" "tossize ?q \<noteq> 0"
    by (simp_all add: k f t)
  ultimately show ?thesis by (simp add: monstartup_always)
qed

lemma giant_fields:
  "textsize (moncontrol True (startup_sizes openbsd 0 0x80000000)) = 0x80000000"
  "kcountsize (moncontrol True (startup_sizes openbsd 0 0x80000000)) = 0x40000000"
  by (simp_all add: moncontrol_def startup_eval)

lemma small_startup:
  "monstartup openbsd mmap_always 0x1000 0x2000 =
     Some (moncontrol True (startup_sizes openbsd 0x1000 0x2000),
           startup_scale (startup_sizes openbsd 0x1000 0x2000))"
  by (rule monstartup_always) (simp_all add: startup_eval)

text \<open>
  C6. The claim is that a successful \<^verbatim>\<open>monstartup\<close> gives a scale in \<open>(0, 65536]\<close>
  for every pair \<open>low_pc < high_pc\<close>. The code computes the scale from
  \<^verbatim>\<open>int o = p->highpc - p->lowpc\<close>: for the bounds \<open>0\<close> and \<open>0x80000000\<close> the text
  size \<open>2\<^sup>3\<^sup>1\<close> does not fit the \<^verbatim>\<open>int\<close>, \<open>o\<close> is \<open>-2\<^sup>3\<^sup>1\<close>, and the scale is
  \<open>-32768\<close>.
\<close>

theorem startup_scale_out_of_range:
  "(0 :: u_long) < 0x80000000 \<and>
   map_option snd (monstartup openbsd mmap_always 0 0x80000000) = Some (- 32768)"
  by (simp add: giant_startup)

text \<open>
  The sizes and, within the range of the \<^verbatim>\<open>int\<close>, the scale. A successful
  \<^verbatim>\<open>monstartup\<close> gives \<open>kcountsize \<le> textsize\<close> and \<open>fromssize \<le> textsize\<close>, and when
  the text size is below \<open>2\<^sup>3\<^sup>1\<close> the scale lies in \<open>(0, 65536]\<close>.
\<close>

theorem startup_bounds:
  assumes "monstartup d mm lo hi = Some (p, s)" and "HISTFRACTION d = 2"
  shows "kcountsize p \<le> textsize p \<and> fromssize p \<le> textsize p \<and>
         (unat (textsize p) < 2 ^ 31 \<longrightarrow> 0 < s \<and> s \<le> 65536)"
proof -
  let ?q = "startup_sizes d lo hi"
  note m = monstartup_Some [OF assms(1)]
  have p: "kcountsize p = kcountsize ?q" "textsize p = textsize ?q" "fromssize p = fromssize ?q"
    using m(1) by (simp_all add: moncontrol_def)
  have k: "kcountsize ?q \<noteq> 0" using m(3) p by simp
  have "kcountsize ?q \<le> textsize ?q" "fromssize ?q \<le> textsize ?q"
    by (simp_all add: startup_sizes_fields word_div_le_self)
  moreover have "s = 32768" if "unat (textsize ?q) < 2 ^ 31"
    using startup_scale_value(1) [OF assms(2) that k] m(2) by simp
  ultimately show ?thesis using p by auto
qed

theorem startup_bounds_witness:
  "monstartup openbsd mmap_always 0x1000 0x2000 \<noteq> None \<and>
   kcountsize (startup_sizes openbsd 0x1000 0x2000) \<le> textsize (startup_sizes openbsd 0x1000 0x2000) \<and>
   fromssize (startup_sizes openbsd 0x1000 0x2000) \<le> textsize (startup_sizes openbsd 0x1000 0x2000) \<and>
   0 < startup_scale (startup_sizes openbsd 0x1000 0x2000) \<and>
   startup_scale (startup_sizes openbsd 0x1000 0x2000) \<le> 65536"
proof -
  have h: "HISTFRACTION openbsd = 2" by (simp add: openbsd_def)
  have t: "unat (textsize (moncontrol True (startup_sizes openbsd 0x1000 0x2000))) < 2 ^ 31"
    by (simp add: moncontrol_def startup_eval)
  from startup_bounds [OF small_startup h] t show ?thesis
    by (simp add: small_startup moncontrol_def)
qed

text \<open>
  C5. The claim is that for every \<open>low_pc\<close>, \<open>high_pc\<close> with \<open>bucket_count < text_size\<close>
  the scale of \<^verbatim>\<open>monstartup\<close> is the value of the staging in three bands of
  \<open>text_size\<close> and \<open>bucket_count\<close>. The code computes the scale, in the branch that is
  compiled, from \<^verbatim>\<open>int o = p->highpc - p->lowpc\<close>. For the bounds \<open>0\<close> and
  \<open>0x80000000\<close> the text size is \<open>2\<^sup>3\<^sup>1\<close> and the histogram has \<open>2\<^sup>3\<^sup>0\<close> bytes; the
  staging gives 32768, but \<open>o\<close> is \<open>-2\<^sup>3\<^sup>1\<close> and the scale of the code is \<open>-32768\<close>.
  It is the same narrowing to \<^verbatim>\<open>int\<close> that takes the scale out of \<open>(0, 65536]\<close>.
\<close>

theorem startup_scale_not_staged:
  "map_option snd (monstartup openbsd mmap_always 0 0x80000000) = Some (- 32768) \<and>
   map_option (textsize \<circ> fst) (monstartup openbsd mmap_always 0 0x80000000) = Some 0x80000000 \<and>
   map_option (kcountsize \<circ> fst) (monstartup openbsd mmap_always 0 0x80000000) = Some 0x40000000 \<and>
   scale_staged (unat (0x80000000 :: u_long)) (unat (0x40000000 :: u_long)) = 32768"
  by (simp add: giant_startup giant_fields scale_staged_def)

text \<open>
  Within the range of the \<^verbatim>\<open>int\<close> the two computations agree. The scale of
  \<^verbatim>\<open>monstartup\<close> is the floating-point value \<^verbatim>\<open>((float)kcountsize / o) * 65536\<close>
  converted to \<^verbatim>\<open>int\<close>; for a text size below \<open>2\<^sup>3\<^sup>1\<close> it is equal to the value of the
  staging in three bands.
\<close>

theorem startup_scale_staging:
  assumes "monstartup d mm lo hi = Some (p, s)" and "HISTFRACTION d = 2"
    and "unat (textsize p) < 2 ^ 31"
  shows "s = int (scale_staged (unat (textsize p)) (unat (kcountsize p))) \<and>
         s = scale_float (kcountsize p) (int (unat (textsize p)))"
proof -
  let ?q = "startup_sizes d lo hi"
  note m = monstartup_Some [OF assms(1)]
  have p: "kcountsize p = kcountsize ?q" "textsize p = textsize ?q"
    using m(1) by (simp_all add: moncontrol_def)
  have k: "kcountsize ?q \<noteq> 0" using m(3) p by simp
  have t: "unat (textsize ?q) < 2 ^ 31" using assms(3) p by simp
  have s: "s = 32768" using startup_scale_value(1) [OF assms(2) t k] m(2) by simp
  have ks: "kcountsize ?q = textsize ?q div 2" using assms(2) by (simp add: startup_sizes_fields)
  have uk: "unat (kcountsize ?q) = unat (textsize ?q) div 2" by (simp add: ks unat_div)
  have d4: "4 dvd unat (textsize ?q)" by (rule textsize_dvd4 [OF assms(2)])
  then have two: "unat (textsize ?q) = 2 * unat (kcountsize ?q)" unfolding uk by presburger
  have kpos: "0 < unat (kcountsize ?q)" using k by (simp add: unat_gt_0)
  have "scale_staged (2 * unat (kcountsize ?q)) (unat (kcountsize ?q)) = 32768"
    using kpos t two by (intro scale_staged_half) simp_all
  moreover have "scale_float (kcountsize ?q) (int (unat (textsize ?q))) = 32768"
    by (rule scale_float_half [OF k]) (simp add: two)
  ultimately show ?thesis using s p two by simp
qed

theorem startup_scale_staging_witness:
  "monstartup openbsd mmap_always 0x1000 0x2000 \<noteq> None \<and>
   textsize (startup_sizes openbsd 0x1000 0x2000) = 0x1000 \<and>
   kcountsize (startup_sizes openbsd 0x1000 0x2000) = 0x800 \<and>
   startup_scale (startup_sizes openbsd 0x1000 0x2000) = int (scale_staged 0x1000 0x800)"
proof -
  have h: "HISTFRACTION openbsd = 2" by (simp add: openbsd_def)
  have ts: "textsize (startup_sizes openbsd 0x1000 0x2000) = 0x1000" by (simp add: startup_eval)
  have ks: "kcountsize (startup_sizes openbsd 0x1000 0x2000) = 0x800" by (simp add: startup_eval)
  have t: "unat (textsize (moncontrol True (startup_sizes openbsd 0x1000 0x2000))) < 2 ^ 31"
    by (simp add: moncontrol_def ts)
  from startup_scale_staging [OF small_startup h t] show ?thesis
    by (simp add: small_startup moncontrol_def ts ks)
qed

section \<open>Scanning what was printed\<close>

lemma hexchar_table:
  "list_all (\<lambda>d. xdigit_val (hexchar d) = Some d \<and> \<not> isspace (hexchar d) \<and>
      hexchar d \<noteq> CHR ''-'' \<and> hexchar d \<noteq> CHR ''+'' \<and> hexchar d \<noteq> CHR ''x'' \<and>
      hexchar d \<noteq> CHR ''X'' \<and> (hexchar d = CHR ''0'' \<longrightarrow> d = 0))
     [0, 1, 2, 3, 4, 5, 6, 7, 8, 9, 10, 11, 12, 13, 14, 15]"
  by (simp add: hexchar_def xdigit_val_def isspace_def)

lemma hexchar_props:
  assumes "d < 16"
  shows "xdigit_val (hexchar d) = Some d" "\<not> isspace (hexchar d)"
    "hexchar d \<noteq> CHR ''-''" "hexchar d \<noteq> CHR ''+''" "hexchar d \<noteq> CHR ''x''"
    "hexchar d \<noteq> CHR ''X''" "hexchar d = CHR ''0'' \<Longrightarrow> d = 0"
proof -
  have "d \<in> set [0, 1, 2, 3, 4, 5, 6, 7, 8, 9, 10, 11, 12, 13, 14, 15]"
    using assms by simp arith
  then have "xdigit_val (hexchar d) = Some d \<and> \<not> isspace (hexchar d) \<and>
      hexchar d \<noteq> CHR ''-'' \<and> hexchar d \<noteq> CHR ''+'' \<and> hexchar d \<noteq> CHR ''x'' \<and>
      hexchar d \<noteq> CHR ''X'' \<and> (hexchar d = CHR ''0'' \<longrightarrow> d = 0)"
    using hexchar_table unfolding list_all_iff by blast
  then show "xdigit_val (hexchar d) = Some d" "\<not> isspace (hexchar d)"
    "hexchar d \<noteq> CHR ''-''" "hexchar d \<noteq> CHR ''+''" "hexchar d \<noteq> CHR ''x''"
    "hexchar d \<noteq> CHR ''X''" "hexchar d = CHR ''0'' \<Longrightarrow> d = 0"
    by blast+
qed

lemma hex_digits: "\<forall>c\<in>set (hex n). digit_char c"
proof (induction n rule: hex.induct)
  case (1 n)
  show ?case
  proof (cases "n < 16")
    case True
    then show ?thesis by (subst hex.simps) (auto simp: digit_char_def)
  next
    case False
    have "n mod 16 < 16" by simp
    then have "digit_char (hexchar (n mod 16))" unfolding digit_char_def by blast
    then show ?thesis using False "1.IH" by (subst hex.simps) auto
  qed
qed

lemma scan_digits_append:
  "\<forall>c\<in>set ds. digit_char c \<Longrightarrow> scan_digits acc (ds @ rest) = scan_digits (digit_sum acc ds) rest"
proof (induction ds arbitrary: acc)
  case Nil
  then show ?case by (simp add: digit_sum_def)
next
  case (Cons c ds)
  then obtain d where d: "d < 16" "c = hexchar d" by (auto simp: digit_char_def)
  then show ?case using Cons by (simp add: hexchar_props(1) digit_sum_def)
qed

lemma digit_sum_hex: "digit_sum acc (hex n) = acc * 16 ^ length (hex n) + n"
proof (induction n arbitrary: acc rule: hex.induct)
  case (1 n)
  show ?case
  proof (cases "n < 16")
    case True
    then show ?thesis by (subst (1 2) hex.simps) (simp add: digit_sum_def hexchar_props(1))
  next
    case False
    have m: "n mod 16 < 16" by simp
    have h: "hex n = hex (n div 16) @ [hexchar (n mod 16)]"
      using False by (subst hex.simps) simp
    have "digit_sum acc (hex n) = digit_sum acc (hex (n div 16)) * 16 + n mod 16"
      unfolding h by (simp add: digit_sum_def hexchar_props(1) [OF m])
    also have "\<dots> = (acc * 16 ^ length (hex (n div 16)) + n div 16) * 16 + n mod 16"
      using "1.IH" [OF False] by simp
    also have "\<dots> = acc * 16 ^ length (hex n) + n"
      unfolding h by (simp add: algebra_simps)
    finally show ?thesis .
  qed
qed

lemma scan_digits_stop:
  "rest = [] \<or> xdigit_val (hd rest) = None \<Longrightarrow> scan_digits v rest = (v, rest)"
  by (cases rest) auto

lemma hex_Cons: "\<exists>d cs. d < 16 \<and> hex n = hexchar d # cs \<and> (d = 0 \<longrightarrow> cs = [])"
proof (induction n rule: hex.induct)
  case (1 n)
  show ?case
  proof (cases "n < 16")
    case True
    then show ?thesis by (subst hex.simps) auto
  next
    case False
    then have pos: "0 < n div 16" by (simp add: div_greater_zero_iff)
    from "1.IH" [OF False] obtain d cs where
      d: "d < 16" "hex (n div 16) = hexchar d # cs" "d = 0 \<longrightarrow> cs = []" by blast
    have "d \<noteq> 0"
    proof
      assume z: "d = 0"
      then have "hex (n div 16) = [hexchar 0]" using d by simp
      then have "digit_sum 0 (hex (n div 16)) = 0"
        by (simp add: digit_sum_def hexchar_props(1))
      then show False using digit_sum_hex [of 0 "n div 16"] pos by simp
    qed
    then show ?thesis using d False
      by (subst hex.simps) (auto intro!: exI [of _ d])
  qed
qed

lemma unat_u_long_bound: "unat (w :: u_long) < 18446744073709551616"
proof -
  have "unat w < 2 ^ LENGTH(64)" by (rule unsigned_less)
  then show ?thesis by simp
qed

lemma unat_u_int_bound: "unat (w :: u_int) < 18446744073709551616"
proof -
  have "unat w < 2 ^ LENGTH(32)" by (rule unsigned_less)
  then show ?thesis by simp
qed

lemma scan_hex_hex:
  assumes "rest = [] \<or> hd rest = CHR '' ''" and small: "n < 2 ^ 64"
  shows "scan_hex (CHR '' '' # hex n @ rest) = Some (int n, rest)"
proof -
  obtain d cs where d: "d < 16" "hex n = hexchar d # cs" "d = 0 \<longrightarrow> cs = []"
    using hex_Cons by blast
  let ?s = "hex n @ rest"
  have sp: "isspace (CHR '' '')" by (simp add: isspace_def)
  have dw: "dropWhile isspace (CHR '' '' # ?s) = ?s"
    using sp d hexchar_props(2) [OF d(1)] by simp
  have sg: "scan_sign ?s = (False, ?s)"
    using d hexchar_props(3,4) [OF d(1)] by (simp add: scan_sign_def)
  have nx: "xdigit_val (CHR '' '') = None" by (simp add: xdigit_val_def)
  have stop: "rest = [] \<or> xdigit_val (hd rest) = None" using assms(1) nx by auto
  have ox: "scan_0x ?s = ?s"
  proof (cases cs)
    case Nil
    then show ?thesis using d assms(1)
      by (cases rest) (auto simp: scan_0x_def split: list.splits)
  next
    case (Cons c cs')
    then have "digit_char c" using hex_digits [of n] d by simp
    then obtain e where e: "e < 16" "c = hexchar e" by (auto simp: digit_char_def)
    show ?thesis using d Cons e hexchar_props(5,6) [OF e(1)]
      by (auto simp: scan_0x_def split: list.splits)
  qed
  have sd: "scan_digits 0 ?s = (n, rest)"
    using scan_digits_append [OF hex_digits, of 0 n rest] digit_sum_hex [of 0 n]
      scan_digits_stop [OF stop] by simp
  show ?thesis
    unfolding scan_hex_def dw sg using d hexchar_props(1) [OF d(1)] sd ox small
    by (simp add: Let_def)
qed

lemma scan_hexes_hex:
  "list_all (\<lambda>n. n < 2 ^ 64) ns \<Longrightarrow>
   scan_hexes (length ns) (concat (map (\<lambda>n. CHR '' '' # hex n) ns)) = map int ns"
proof (induction ns)
  case Nil
  then show ?case by simp
next
  case (Cons n ns)
  let ?rest = "concat (map (\<lambda>n. CHR '' '' # hex n) ns)"
  have "?rest = [] \<or> hd ?rest = CHR '' ''" by (cases ns) simp_all
  moreover have "n < 2 ^ 64" using Cons.prems by simp
  ultimately have "scan_hex (CHR '' '' # hex n @ ?rest) = Some (int n, ?rest)"
    by (rule scan_hex_hex)
  then show ?case using Cons by simp
qed

lemma sscanf_gmonhdr_record:
  "sscanf_hex ''gmonhdr'' 5 (gmonhdr_record h) =
     [int (unat (lpc h)), int (unat (hpc h)), int (unat (ncnt h)), int (unat (version h)),
      int (unat (profrate h))]"
proof -
  let ?ns = "[unat (lpc h), unat (hpc h), unat (ncnt h), unat (version h), unat (profrate h)]"
  have r: "gmonhdr_record h = ''gmonhdr'' @ concat (map (\<lambda>n. CHR '' '' # hex n) ?ns)"
    by (simp add: gmonhdr_record_def)
  have l: "length ?ns = 5" by simp
  have "list_all (\<lambda>n. n < 2 ^ 64) ?ns" by (simp add: unat_u_long_bound unat_u_int_bound)
  then show ?thesis
    unfolding sscanf_hex_gmonhdr r using scan_hexes_hex [of ?ns] unfolding l by simp
qed

lemma sscanf_rawarc_record:
  "sscanf_hex ''rawarc'' 3 (rawarc_record a) =
     [int (unat (raw_frompc a)), int (unat (raw_selfpc a)), int (unat (raw_count a))]"
proof -
  let ?ns = "[unat (raw_frompc a), unat (raw_selfpc a), unat (raw_count a)]"
  have r: "rawarc_record a = ''rawarc'' @ concat (map (\<lambda>n. CHR '' '' # hex n) ?ns)"
    by (simp add: rawarc_record_def)
  have l: "length ?ns = 3" by simp
  have "list_all (\<lambda>n. n < 2 ^ 64) ?ns" by (simp add: unat_u_long_bound)
  then show ?thesis
    unfolding sscanf_hex_rawarc r using scan_hexes_hex [of ?ns] unfolding l by simp
qed

lemma gmon_append_gmonhdr_record:
  assumes "state de = HEADER" and "sizeof_gmonhdr d \<le> unat (ncnt h)" and "0 < wr_left fp"
  shows "gmon_append d fp de (gmonhdr_record h) =
           Some (fp\<lparr> contents := contents fp @ [Hdr h], wr_left := wr_left fp - 1 \<rparr>,
                 de\<lparr> sample_count := 0,
                     sample_total := (ucast (ncnt h) - of_nat (sizeof_gmonhdr d)) div 2,
                     state := KCOUNT \<rparr>)"
  using assms by (simp add: gmon_append_def sscanf_gmonhdr_record fwrite_def)

lemma gmon_append_rawarc_record:
  assumes "state de = RAWARC" and "0 < wr_left fp"
  shows "gmon_append d fp de (rawarc_record a) =
           Some (fp\<lparr> contents := contents fp @ [Arc a], wr_left := wr_left fp - 1 \<rparr>, de)"
proof -
  have "rawarc_record a \<noteq> ''footer''" by (simp add: rawarc_record_def)
  then show ?thesis
    using assms by (simp add: gmon_append_def sscanf_rawarc_record fwrite_def)
qed

lemma gmon_append_footer:
  "state de = RAWARC \<Longrightarrow> gmon_append d fp de ''footer'' = Some (fp, de\<lparr> state := FOOTER \<rparr>)"
  by (simp add: gmon_append_def)

lemma gmon_append_not_gmonhdr:
  assumes "state de = HEADER" and "take 7 trace \<noteq> ''gmonhdr''"
  shows "gmon_append d fp de trace = Some (fp, de\<lparr> state := ERROR \<rparr>)"
  using assms by (simp add: gmon_append_def sscanf_hex_gmonhdr de_error_def)

section \<open>The header record on the wire\<close>

lemma utrace_sent: "utrace s ch = Some ch1 \<Longrightarrow> sent ch1 = sent ch @ [s]"
  by (auto simp: utrace_def split: if_splits)

lemma kcount_outer_sent:
  assumes "kcount_outer sz kc stotal slimit i ch = (e, ch')"
  shows "\<exists>rs. sent ch' = sent ch @ rs"
  using assms
proof (induction sz kc stotal slimit i ch arbitrary: e ch' rule: kcount_outer.induct)
  case (1 sz kc stotal slimit i ch)
  let ?limit = "if stotal - i < slimit then stotal else i + slimit"
  show ?case
  proof (cases "i < stotal")
    case False
    then have "ch' = ch"
      using "1.prems" by (subst (asm) kcount_outer.simps) simp
    then show ?thesis by simp
  next
    case True
    show ?thesis
    proof (cases "kcount_inner sz kc i ?limit ''kcount''")
      case (Inl x)
      then have "ch' = ch"
        using "1.prems" True by (subst (asm) kcount_outer.simps) (simp add: Let_def)
      then show ?thesis by simp
    next
      case (Inr ubuf)
      show ?thesis
      proof (cases "utrace ubuf ch")
        case None
        then have "ch' = ch"
          using "1.prems" True Inr by (subst (asm) kcount_outer.simps) (simp add: Let_def)
        then show ?thesis by simp
      next
        case (Some ch1)
        have "kcount_outer sz kc stotal slimit ?limit ch1 = (e, ch')"
          using "1.prems" True Inr Some by (subst (asm) kcount_outer.simps) (simp add: Let_def)
        from "1.IH" [OF True refl Inr Some this]
        obtain rs where "sent ch' = sent ch1 @ rs" by blast
        then show ?thesis using utrace_sent [OF Some] by simp
      qed
    qed
  qed
qed

lemma mcleanup_first:
  assumes "68 \<le> KTR_USER_MAXLEN d" and "0 < ok_left ch"
  shows "\<exists>rs. sent (snd (mcleanup d clk p ch)) =
           sent ch @ gmonhdr_record (session_header d clk p) # rs"
proof -
  let ?sz = "KTR_USER_MAXLEN d + 1"
  let ?hdr = "gmonhdr_record (session_header d clk p)"
  let ?ch1 = "ch\<lparr> sent := sent ch @ [?hdr], ok_left := ok_left ch - 1 \<rparr>"
  have hl: "\<not> ?sz \<le> length ?hdr"
    using gmonhdr_record_length [of "session_header d clk p"] assms(1) by simp
  have u1: "utrace ?hdr ch = Some ?ch1" using assms(2) by (rule utrace_Some)
  obtain e2 ch2 where k: "kcount_outer ?sz (kcount p) (unat (kcountsize p) div 2) ((?sz - 6) div 5) 0 ?ch1 = (e2, ch2)"
    by (cases "kcount_outer ?sz (kcount p) (unat (kcountsize p) div 2) ((?sz - 6) div 5) 0 ?ch1")
  obtain rs2 where rs2: "sent ch2 = sent ?ch1 @ rs2" using kcount_outer_sent [OF k] by blast
  obtain e3 ch3 where f: "froms_loop ?sz p (sint (ucast (fromssize p div 2) :: 32 word)) 0 ch2 = (e3, ch3)"
    by (cases "froms_loop ?sz p (sint (ucast (fromssize p div 2) :: 32 word)) 0 ch2")
  obtain rs3 where rs3: "sent ch3 = sent ch2 @ rs3" using froms_loop_records [OF f] by blast
  have "\<exists>rs. sent (snd (mcleanup d clk p ch)) = sent ?ch1 @ rs"
    unfolding mcleanup_unfold Let_def using hl u1 k f rs2 rs3
    by (auto split: option.splits dest: utrace_sent)
  then show ?thesis by auto
qed

lemma demo_mcleanup:
  "mcleanup openbsd (Some (100, 0)) demo_session \<lparr> sent = [], ok_left = 4 \<rparr> =
     (None, \<lparr> sent = [''gmonhdr 1000 1008 2c 30af2 64'', ''kcount 0001 0abc'',
                       ''rawarc 1004 1100 3'', ''footer''], ok_left = 0 \<rparr>)"
proof -
  have k: "length (kcount demo_session) = unat (kcountsize demo_session) div 2"
    by (simp add: demo_fields)
  have f: "length (froms demo_session) = unat (fromssize demo_session) div 2"
    "length (froms demo_session) < 2 ^ 31"
    by (simp_all add: demo_fields)
  have m: "68 \<le> KTR_USER_MAXLEN openbsd" "KTR_USER_MAXLEN openbsd mod 5 \<noteq> 0"
    by (simp_all add: openbsd_def)
  have b: "length (session_records openbsd (Some (100, 0)) demo_session)
             \<le> ok_left \<lparr> sent = [], ok_left = 4 \<rparr>"
    by (simp add: demo_records)
  from mcleanup_exact [OF k f demo_chains_ok m b] show ?thesis by (simp add: demo_records)
qed

lemma demo_header:
  "session_header openbsd (Some (100, 0)) demo_session =
     \<lparr> lpc = 0x1000, hpc = 0x1008, ncnt = 44, version = 199410, profrate = 100 \<rparr>"
  by (simp add: session_header_def demo_fields openbsd_def)

text \<open>
  C9, as stated, fails: the tag of the header record is \<open>gmonhdr\<close>, on both sides. The
  finalizer emits \<open>gmonhdr 1000 1008 2c 30af2 64\<close> for the small session, the
  deserializer in state \<open>HEADER\<close> rejects the same fields after the tag \<open>header\<close>, and
  it accepts a record that goes on after the five fields.
\<close>

theorem header_tag_is_gmonhdr:
  "hd (sent (snd (mcleanup openbsd (Some (100, 0)) demo_session \<lparr> sent = [], ok_left = 4 \<rparr>)))
     = ''gmonhdr 1000 1008 2c 30af2 64'' \<and>
   gmon_append openbsd \<lparr> contents = [], wr_left = 1 \<rparr>
       \<lparr> sample_count = 0, sample_total = 0, state = HEADER \<rparr> ''header 1000 1008 2c 30af2 64''
     = Some (\<lparr> contents = [], wr_left = 1 \<rparr>,
             \<lparr> sample_count = 0, sample_total = 0, state = ERROR \<rparr>) \<and>
   gmon_append openbsd \<lparr> contents = [], wr_left = 1 \<rparr>
       \<lparr> sample_count = 0, sample_total = 0, state = HEADER \<rparr>
       ''gmonhdr 1000 1008 2c 30af2 64 and more''
     = Some (\<lparr> contents = [Hdr \<lparr> lpc = 0x1000, hpc = 0x1008, ncnt = 44, version = 199410,
                                    profrate = 100 \<rparr>], wr_left = 0 \<rparr>,
             \<lparr> sample_count = 0, sample_total = 2, state = KCOUNT \<rparr>)"
proof -
  have "hd (sent (snd (mcleanup openbsd (Some (100, 0)) demo_session
          \<lparr> sent = [], ok_left = 4 \<rparr>))) = ''gmonhdr 1000 1008 2c 30af2 64''"
    by (simp add: demo_mcleanup)
  then show ?thesis by (simp add: de_eval openbsd_def)
qed

text \<open>
  C9, amended. The header record that starts the stream of \<^verbatim>\<open>_mcleanup\<close> is the tag
  \<open>gmonhdr\<close> followed by five fields, each after one blank, in lower-case hexadecimal:
  \<open>low_pc\<close>, \<open>high_pc\<close>, the declared size, the version and the sample rate. In state
  \<open>HEADER\<close> the deserializer accepts every such record whose declared size is at
  least the size of the header (it writes a header with these five values and moves
  to \<open>KCOUNT\<close>, when the write succeeds), and it rejects every record that does not
  begin with \<open>gmonhdr\<close>.
\<close>

theorem header_record_form:
  "(68 \<le> KTR_USER_MAXLEN d \<and> 0 < ok_left ch \<longrightarrow>
      (\<exists>rs. sent (snd (mcleanup d clk p ch)) =
         sent ch @ gmonhdr_record (session_header d clk p) # rs)) \<and>
   gmonhdr_record h =
      ''gmonhdr'' @ concat (map (\<lambda>n. CHR '' '' # hex n)
         [unat (lpc h), unat (hpc h), unat (ncnt h), unat (version h), unat (profrate h)]) \<and>
   (state de = HEADER \<and> sizeof_gmonhdr d \<le> unat (ncnt h) \<and> 0 < wr_left fp \<longrightarrow>
      gmon_append d fp de (gmonhdr_record h) =
        Some (fp\<lparr> contents := contents fp @ [Hdr h], wr_left := wr_left fp - 1 \<rparr>,
              de\<lparr> sample_count := 0,
                  sample_total := (ucast (ncnt h) - of_nat (sizeof_gmonhdr d)) div 2,
                  state := KCOUNT \<rparr>)) \<and>
   (state de = HEADER \<and> take 7 trace \<noteq> ''gmonhdr'' \<longrightarrow>
      gmon_append d fp de trace = Some (fp, de\<lparr> state := ERROR \<rparr>))"
  using mcleanup_first [of d ch clk p] gmon_append_gmonhdr_record [of de d h fp]
    gmon_append_not_gmonhdr [of de trace d fp]
  by (simp add: gmonhdr_record_def)

theorem header_record_form_witness:
  "gmonhdr_record \<lparr> lpc = 0x1000, hpc = 0x1008, ncnt = 44, version = 199410, profrate = 100 \<rparr>
     = ''gmonhdr 1000 1008 2c 30af2 64'' \<and>
   gmon_append openbsd \<lparr> contents = [], wr_left = 1 \<rparr>
       \<lparr> sample_count = 0, sample_total = 0, state = HEADER \<rparr>
       (gmonhdr_record \<lparr> lpc = 0x1000, hpc = 0x1008, ncnt = 44, version = 199410,
                         profrate = 100 \<rparr>)
     = Some (\<lparr> contents = [Hdr \<lparr> lpc = 0x1000, hpc = 0x1008, ncnt = 44, version = 199410,
                                    profrate = 100 \<rparr>], wr_left = 0 \<rparr>,
             \<lparr> sample_count = 0, sample_total = 2, state = KCOUNT \<rparr>) \<and>
   gmon_append openbsd \<lparr> contents = [], wr_left = 1 \<rparr>
       \<lparr> sample_count = 0, sample_total = 0, state = HEADER \<rparr> ''header 1000 1008 2c 30af2 64''
     = Some (\<lparr> contents = [], wr_left = 1 \<rparr>,
             \<lparr> sample_count = 0, sample_total = 0, state = ERROR \<rparr>)"
proof -
  let ?h = "\<lparr> lpc = 0x1000, hpc = 0x1008, ncnt = 44, version = 199410, profrate = 100 \<rparr>"
  let ?fp = "\<lparr> contents = [], wr_left = 1 \<rparr>"
  let ?de = "\<lparr> sample_count = 0, sample_total = 0, state = HEADER \<rparr>"
  have a: "state ?de = HEADER \<and> sizeof_gmonhdr openbsd \<le> unat (ncnt ?h) \<and> 0 < wr_left ?fp"
    by (simp add: openbsd_def)
  have b: "state ?de = HEADER \<and> take 7 ''header 1000 1008 2c 30af2 64'' \<noteq> ''gmonhdr''"
    by simp
  have r: "gmonhdr_record ?h = ''gmonhdr 1000 1008 2c 30af2 64''"
    by (simp add: gmonhdr_record_def hex_eval)
  from header_record_form [of openbsd _ _ _ ?h ?de ?fp "''header 1000 1008 2c 30af2 64''"] a b
  have "gmon_append openbsd ?fp ?de (gmonhdr_record ?h) =
        Some (?fp\<lparr> contents := contents ?fp @ [Hdr ?h], wr_left := wr_left ?fp - 1 \<rparr>,
              ?de\<lparr> sample_count := 0,
                  sample_total := (ucast (ncnt ?h) - of_nat (sizeof_gmonhdr openbsd)) div 2,
                  state := KCOUNT \<rparr>)"
    and "gmon_append openbsd ?fp ?de ''header 1000 1008 2c 30af2 64''
          = Some (?fp, ?de\<lparr> state := ERROR \<rparr>)"
    by blast+
  then show ?thesis using r by (simp add: openbsd_def)
qed

section \<open>From the finalizer to the deserializer\<close>

lemma demo_extract:
  "ktrace_extract openbsd demo_env
     (user_records openbsd 7 [''gmonhdr 1000 1008 2c 30af2 64'', ''kcount 0001 0abc'',
                       ''rawarc 1004 1100 3'', ''footer''])
   = Inr \<lparr> contents =
             [Hdr \<lparr> lpc = 0x1000, hpc = 0x1008, ncnt = 44, version = 199410, profrate = 100 \<rparr>,
              Sample 1, Sample 0x3453,
              Arc \<lparr> raw_frompc = 0x1004, raw_selfpc = 0x1100, raw_count = 3 \<rparr>],
           wr_left = 6 \<rparr>"
  by (simp add: ktrace_extract_def demo_env_def user_records_def GMON_LABEL_def openbsd_def de_eval)

text \<open>
  C1. The claim is that the records which the finalizer emits, fed to the
  deserializer from state \<open>HEADER\<close>, give back the header, the samples and the arcs of
  the session, and in particular every sample whose four digits contain a letter
  \<open>a-f\<close>. The code decodes a digit as \<^verbatim>\<open>*p - '0'\<close>, which is 49 to 54 for the letters
  \<open>a\<close> to \<open>f\<close> and not 10 to 15. The small session holds the samples \<open>1\<close> and \<open>0xabc\<close>;
  the finalizer emits \<open>kcount 0001 0abc\<close>, and the extractor, which hands each record to
  \<^verbatim>\<open>gmon_append\<close>, ends in \<open>FOOTER\<close> with a file whose header and arc are those of the
  session but whose second sample is \<open>0x3453\<close>.
\<close>

theorem letter_digits_misread:
  "kcount demo_session = [1, 0xabc] \<and>
   mcleanup openbsd (Some (100, 0)) demo_session \<lparr> sent = [], ok_left = 4 \<rparr> =
     (None, \<lparr> sent = [''gmonhdr 1000 1008 2c 30af2 64'', ''kcount 0001 0abc'',
                       ''rawarc 1004 1100 3'', ''footer''], ok_left = 0 \<rparr>) \<and>
   ktrace_extract openbsd demo_env
     (user_records openbsd 7
        (sent (snd (mcleanup openbsd (Some (100, 0)) demo_session \<lparr> sent = [], ok_left = 4 \<rparr>))))
   = Inr \<lparr> contents =
             [Hdr \<lparr> lpc = 0x1000, hpc = 0x1008, ncnt = 44, version = 199410, profrate = 100 \<rparr>,
              Sample 1, Sample 0x3453,
              Arc \<lparr> raw_frompc = 0x1004, raw_selfpc = 0x1100, raw_count = 3 \<rparr>],
           wr_left = 6 \<rparr>"
  unfolding demo_mcleanup using demo_extract by (simp add: demo_fields(1))

end
